theory Spec2Isabelle
  imports Complex_Main "HOL-Library.Char_ord" "HOL-Library.List_Lexorder"
begin

section \<open>Company deduplicator: data model\<close>

text \<open>
  A shallow embedding of \<^verbatim>\<open>src/types.ts\<close>, \<^verbatim>\<open>src/config.ts\<close>,
  \<^verbatim>\<open>src/utils/normalizer.ts\<close>, \<^verbatim>\<open>src/utils/matcher.ts\<close> and
  \<^verbatim>\<open>src/deduplicator.ts\<close>.

  Conventions of the embedding.
  \<^item> A JavaScript string is a list of UTF-16 code units. The model's \<open>string\<close> holds the
    code units U+0000 to U+00FF (one \<open>char\<close> each, \<open>of_char\<close> its code unit), so it
    covers ASCII and the Latin-1 letters with accents; strings with code units beyond
    U+00FF are outside the model.
  \<^item> A JavaScript \<^verbatim>\<open>number\<close> that holds a score or a threshold is an exact rational
    (\<open>rat\<close>): a quotient is not rounded to a double, and NaN, which the rationals do not
    have, is written out as a branch where the source can produce it.
    \<^verbatim>\<open>maxResultsPerCompany\<close> holds an integer (\<open>int\<close>).
  \<^item> A \<^verbatim>\<open>Set\<close> or \<^verbatim>\<open>Map\<close> is a list without repeated elements (keys), in insertion
    order, which is the order JavaScript iterates them in.
\<close>

record DeduplicationConfig =
  highSimilarityThreshold :: rat
  tokenMatchThreshold :: rat
  partialMatchThreshold :: rat
  removeSuffixes :: bool
  handleAccents :: bool
  removeNumbers :: bool
  minConfidenceScore :: rat
  maxResultsPerCompany :: int

datatype MatchMethod =
  exact_after_normalization | high_similarity | token_match | partial_match

record CompanyMatch =
  original :: string
  candidate :: string
  confidence :: rat
  matchMethod :: MatchMethod
  normalizedOriginal :: string
  normalizedCandidate :: string

text \<open>
  \<^verbatim>\<open>DuplicateGroup.original\<close> is the field \<open>groupOriginal\<close> here (the name
  \<open>original\<close> is the field of \<open>CompanyMatch\<close>).
\<close>

record DuplicateGroup =
  groupOriginal :: string
  duplicates :: "CompanyMatch list"
  totalMatches :: nat

text \<open>
  \<^verbatim>\<open>processingTimeMs\<close> is a difference of two readings of the wall clock, not a
  function of the input; the record leaves it out.
\<close>

record DeduplicationResult =
  totalCompanies :: nat
  duplicateGroups :: "DuplicateGroup list"
  resultConfig :: DeduplicationConfig

datatype ConfigPreset = conservative | balanced | aggressive

section \<open>Configuration (\<^verbatim>\<open>src/config.ts\<close>)\<close>

fun CONFIG_PRESETS :: "ConfigPreset \<Rightarrow> DeduplicationConfig" where
  "CONFIG_PRESETS conservative =
     \<lparr> highSimilarityThreshold = 92 / 100, tokenMatchThreshold = 88 / 100,
       partialMatchThreshold = 85 / 100, removeSuffixes = True, handleAccents = True,
       removeNumbers = False, minConfidenceScore = 85 / 100, maxResultsPerCompany = 10 \<rparr>"
| "CONFIG_PRESETS balanced =
     \<lparr> highSimilarityThreshold = 85 / 100, tokenMatchThreshold = 80 / 100,
       partialMatchThreshold = 70 / 100, removeSuffixes = True, handleAccents = True,
       removeNumbers = False, minConfidenceScore = 75 / 100, maxResultsPerCompany = 10 \<rparr>"
| "CONFIG_PRESETS aggressive =
     \<lparr> highSimilarityThreshold = 78 / 100, tokenMatchThreshold = 70 / 100,
       partialMatchThreshold = 60 / 100, removeSuffixes = True, handleAccents = True,
       removeNumbers = False, minConfidenceScore = 60 / 100, maxResultsPerCompany = 15 \<rparr>"

text \<open>
  The repository holds a second copy of the configuration module (an earlier revision of
  \<^verbatim>\<open>config.ts\<close>); its table differs in one cell, the conservative limit.
\<close>

fun CONFIG_PRESETS_earlier :: "ConfigPreset \<Rightarrow> DeduplicationConfig" where
  "CONFIG_PRESETS_earlier conservative =
     \<lparr> highSimilarityThreshold = 92 / 100, tokenMatchThreshold = 88 / 100,
       partialMatchThreshold = 85 / 100, removeSuffixes = True, handleAccents = True,
       removeNumbers = False, minConfidenceScore = 85 / 100, maxResultsPerCompany = 5 \<rparr>"
| "CONFIG_PRESETS_earlier balanced =
     \<lparr> highSimilarityThreshold = 85 / 100, tokenMatchThreshold = 80 / 100,
       partialMatchThreshold = 70 / 100, removeSuffixes = True, handleAccents = True,
       removeNumbers = False, minConfidenceScore = 75 / 100, maxResultsPerCompany = 10 \<rparr>"
| "CONFIG_PRESETS_earlier aggressive =
     \<lparr> highSimilarityThreshold = 78 / 100, tokenMatchThreshold = 70 / 100,
       partialMatchThreshold = 60 / 100, removeSuffixes = True, handleAccents = True,
       removeNumbers = False, minConfidenceScore = 60 / 100, maxResultsPerCompany = 15 \<rparr>"

definition DEFAULT_CONFIG :: DeduplicationConfig where
  "DEFAULT_CONFIG = CONFIG_PRESETS balanced"

text \<open>
  \<^verbatim>\<open>between0and1(v, field)\<close> pushes one message when \<open>v < 0 || v > 1\<close>; the model
  returns the messages it pushes.
\<close>

definition between0and1 :: "rat \<Rightarrow> string \<Rightarrow> string list" where
  "between0and1 v field =
     (if v < 0 \<or> v > 1 then [field @ '' must be between 0 and 1''] else [])"

definition validateConfig :: "DeduplicationConfig \<Rightarrow> string list" where
  "validateConfig cfg =
     between0and1 (highSimilarityThreshold cfg) ''highSimilarityThreshold''
   @ between0and1 (tokenMatchThreshold cfg) ''tokenMatchThreshold''
   @ between0and1 (partialMatchThreshold cfg) ''partialMatchThreshold''
   @ between0and1 (minConfidenceScore cfg) ''minConfidenceScore''
   @ (if maxResultsPerCompany cfg \<le> 0 then [''maxResultsPerCompany must be > 0''] else [])"

text \<open>\<^verbatim>\<open>Array.prototype.join(sep)\<close>.\<close>

fun join :: "string \<Rightarrow> string list \<Rightarrow> string" where
  "join sep [] = []"
| "join sep [x] = x"
| "join sep (x # y # ys) = x @ sep @ join sep (y # ys)"

text \<open>
  The class \<^verbatim>\<open>CompanyDeduplicator\<close> has one private field, the configuration. Its
  constructor throws \<^verbatim>\<open>Error("Invalid config: ...")\<close> when validation reports anything;
  the thrown error is the left summand.
\<close>

datatype error = Error string

record CompanyDeduplicator =
  config :: DeduplicationConfig

definition new_CompanyDeduplicator :: "DeduplicationConfig \<Rightarrow> error + CompanyDeduplicator" where
  "new_CompanyDeduplicator cfg =
     (let errs = validateConfig cfg
      in if length errs \<noteq> 0 then Inl (Error (''Invalid config: '' @ join '', '' errs))
         else Inr \<lparr> config = cfg \<rparr>)"

text \<open>
  The interface \<^verbatim>\<open>DeduplicationConfig\<close> is erased at run time, and a field of type
  \<^verbatim>\<open>number\<close> can hold \<^verbatim>\<open>NaN\<close>: \<^verbatim>\<open>cli.ts\<close> stores \<^verbatim>\<open>Number(arg)\<close> of a command-line
  argument in the overrides without a check, and \<^verbatim>\<open>createConfig\<close> spreads them over the
  preset. \<open>number\<close> is a rational or \<^verbatim>\<open>NaN\<close>, and \<open>ConfigObject\<close> is the configuration
  object as \<^verbatim>\<open>validateConfig\<close> and the constructor receive it, with \<^verbatim>\<open>obj_\<close> before the
  name of each field. A comparison \<^verbatim>\<open><\<close>, \<^verbatim>\<open>>\<close> or \<^verbatim>\<open><=\<close> with \<^verbatim>\<open>NaN\<close> on either side
  is false; \<^verbatim>\<open>v > 1\<close> is \<open>less_js (Num 1) v\<close>. \<open>asObject\<close> is the object of a configuration
  whose numbers are all proper.
\<close>

datatype number = Num rat | NaN

fun less_js :: "number \<Rightarrow> number \<Rightarrow> bool" where
  "less_js (Num x) (Num y) = (x < y)"
| "less_js a b = False"

fun lessEq_js :: "number \<Rightarrow> number \<Rightarrow> bool" where
  "lessEq_js (Num x) (Num y) = (x \<le> y)"
| "lessEq_js a b = False"

record ConfigObject =
  obj_highSimilarityThreshold :: number
  obj_tokenMatchThreshold :: number
  obj_partialMatchThreshold :: number
  obj_removeSuffixes :: bool
  obj_handleAccents :: bool
  obj_removeNumbers :: bool
  obj_minConfidenceScore :: number
  obj_maxResultsPerCompany :: number

definition asObject :: "DeduplicationConfig \<Rightarrow> ConfigObject" where
  "asObject cfg =
     \<lparr> obj_highSimilarityThreshold = Num (highSimilarityThreshold cfg),
       obj_tokenMatchThreshold = Num (tokenMatchThreshold cfg),
       obj_partialMatchThreshold = Num (partialMatchThreshold cfg),
       obj_removeSuffixes = removeSuffixes cfg, obj_handleAccents = handleAccents cfg,
       obj_removeNumbers = removeNumbers cfg,
       obj_minConfidenceScore = Num (minConfidenceScore cfg),
       obj_maxResultsPerCompany = Num (of_int (maxResultsPerCompany cfg)) \<rparr>"

definition between0and1_object :: "number \<Rightarrow> string \<Rightarrow> string list" where
  "between0and1_object v field =
     (if less_js v (Num 0) \<or> less_js (Num 1) v then [field @ '' must be between 0 and 1'']
      else [])"

definition validateConfig_object :: "ConfigObject \<Rightarrow> string list" where
  "validateConfig_object cfg =
     between0and1_object (obj_highSimilarityThreshold cfg) ''highSimilarityThreshold''
   @ between0and1_object (obj_tokenMatchThreshold cfg) ''tokenMatchThreshold''
   @ between0and1_object (obj_partialMatchThreshold cfg) ''partialMatchThreshold''
   @ between0and1_object (obj_minConfidenceScore cfg) ''minConfidenceScore''
   @ (if lessEq_js (obj_maxResultsPerCompany cfg) (Num 0)
      then [''maxResultsPerCompany must be > 0''] else [])"

definition new_CompanyDeduplicator_object :: "ConfigObject \<Rightarrow> error + ConfigObject" where
  "new_CompanyDeduplicator_object cfg =
     (let errs = validateConfig_object cfg
      in if length errs \<noteq> 0 then Inl (Error (''Invalid config: '' @ join '', '' errs))
         else Inr cfg)"

section \<open>Strings of the JavaScript runtime\<close>

text \<open>
  The built-in string operations the source calls, on the code units U+0000 to U+00FF.
  \<open>isSpace\<close> is the class \<^verbatim>\<open>\s\<close> of a regular expression, which is also what
  \<^verbatim>\<open>trim()\<close> strips: TAB, LF, VT, FF, CR, SPACE and NO-BREAK SPACE in this range.
  \<open>isDigit\<close> is \<^verbatim>\<open>\d\<close> and \<open>isWord\<close> is \<^verbatim>\<open>\w\<close>, both ASCII-only in JavaScript.
\<close>

definition isSpace :: "char \<Rightarrow> bool" where
  "isSpace c = (let n = (of_char c :: nat) in (9 \<le> n \<and> n \<le> 13) \<or> n = 32 \<or> n = 160)"

definition isDigit :: "char \<Rightarrow> bool" where
  "isDigit c = (let n = (of_char c :: nat) in 48 \<le> n \<and> n \<le> 57)"

definition isWord :: "char \<Rightarrow> bool" where
  "isWord c = (let n = (of_char c :: nat)
     in (65 \<le> n \<and> n \<le> 90) \<or> (97 \<le> n \<and> n \<le> 122) \<or> (48 \<le> n \<and> n \<le> 57) \<or> n = 95)"

text \<open>
  \<^verbatim>\<open>String.prototype.toLowerCase\<close>: in this range the letters with a lower-case mapping
  are A to Z and U+00C0 to U+00DE without the multiplication sign U+00D7; each maps to the
  code unit 32 above it.
\<close>

definition toLowerCase_unit :: "char \<Rightarrow> char" where
  "toLowerCase_unit c = (let n = (of_char c :: nat)
     in if (65 \<le> n \<and> n \<le> 90) \<or> (192 \<le> n \<and> n \<le> 222 \<and> n \<noteq> 215)
        then char_of (n + 32) else c)"

definition toLowerCase :: "string \<Rightarrow> string" where
  "toLowerCase s = map toLowerCase_unit s"

definition trim :: "string \<Rightarrow> string" where
  "trim s = rev (dropWhile isSpace (rev (dropWhile isSpace s)))"

text \<open>\<^verbatim>\<open>String.prototype.split(' ')\<close>: the empty string splits into one empty piece.\<close>

fun split :: "string \<Rightarrow> string list" where
  "split [] = [[]]"
| "split (c # cs) =
     (if c = CHR '' '' then [] # split cs
      else (case split cs of [] \<Rightarrow> [[c]] | w # ws \<Rightarrow> (c # w) # ws))"

text \<open>\<^verbatim>\<open>String.prototype.includes\<close>: the argument occurs as a contiguous piece.\<close>

fun startsWith :: "string \<Rightarrow> string \<Rightarrow> bool" where
  "startsWith s [] = True"
| "startsWith [] (p # ps) = False"
| "startsWith (c # cs) (p # ps) = (c = p \<and> startsWith cs ps)"

fun includes_str :: "string \<Rightarrow> string \<Rightarrow> bool" where
  "includes_str [] p = (p = [])"
| "includes_str (c # cs) p = (startsWith (c # cs) p \<or> includes_str cs p)"

text \<open>
  \<^verbatim>\<open>new Set(xs)\<close> adds the elements in order and ignores one that is already there;
  \<^verbatim>\<open>Map.prototype.set\<close> replaces the value of a key in place and appends a new key.
\<close>

definition Set_add :: "'a list \<Rightarrow> 'a \<Rightarrow> 'a list" where
  "Set_add s x = (if x \<in> set s then s else s @ [x])"

definition new_Set :: "'a list \<Rightarrow> 'a list" where
  "new_Set xs = foldl Set_add [] xs"

fun Map_set :: "'k \<Rightarrow> 'v \<Rightarrow> ('k \<times> 'v) list \<Rightarrow> ('k \<times> 'v) list" where
  "Map_set k v [] = [(k, v)]"
| "Map_set k v (p # ps) = (if fst p = k then (k, v) # ps else p # Map_set k v ps)"

text \<open>
  \<^verbatim>\<open>Number(x.toFixed(3))\<close>: the multiple of 1/1000 nearest to \<open>x\<close>, the larger one when
  two are equally near; a negative \<open>x\<close> is rounded as its magnitude. Scores are exact
  rationals here. The code rounds the double nearest to the quotient, which gives the same
  result except when the exact quotient lies midway between two multiples of 1/1000 (an
  odd multiple of 1/2000, such as 71/80): there the double can lie below the midpoint and
  the code then returns the smaller neighbour (0.887 for 71/80, where \<open>toFixed3\<close> gives
  0.888). Statements about a confidence that must hold of the code at such a quotient are
  made with a bound of 1/2000 on the distance, which holds of either neighbour.
\<close>

definition toFixed3 :: "rat \<Rightarrow> rat" where
  "toFixed3 x = (if x < 0 then - (of_int \<lfloor>- x * 1000 + 1 / 2\<rfloor> / 1000)
                 else of_int \<lfloor>x * 1000 + 1 / 2\<rfloor> / 1000)"

text \<open>
  \<^verbatim>\<open>xs.slice(0, n)\<close> for an integer \<open>n\<close>: a negative \<open>n\<close> counts from the end.
\<close>

definition slice0 :: "'a list \<Rightarrow> int \<Rightarrow> 'a list" where
  "slice0 xs n = (if n < 0 then take (nat (max (int (length xs) + n) 0)) xs else take (nat n) xs)"

section \<open>Normalizer (\<^verbatim>\<open>src/utils/normalizer.ts\<close>)\<close>

definition BUSINESS_SUFFIXES :: "string list" where
  "BUSINESS_SUFFIXES =
    [''ltd'', ''limited'', ''inc'', ''incorporated'', ''corp'', ''corporation'', ''co'', ''company'',
     ''llc'', ''limited liability company'', ''plc'', ''public limited company'',
     ''studio'', ''studios'', ''games'', ''entertainment'', ''interactive'', ''digital'',
     ''software'', ''technologies'', ''tech'', ''systems'', ''solutions'', ''services'',
     ''group'', ''holdings'', ''ventures'', ''partners'', ''associates'', ''enterprises'']"

definition GEOGRAPHIC_TERMS :: "string list" where
  "GEOGRAPHIC_TERMS =
    [''usa'', ''us'', ''america'', ''american'', ''canada'', ''canadian'', ''uk'', ''britain'', ''british'',
     ''europe'', ''european'', ''asia'', ''asian'', ''japan'', ''japanese'', ''china'', ''chinese'',
     ''france'', ''french'', ''germany'', ''german'', ''italy'', ''italian'', ''spain'', ''spanish'',
     ''montreal'', ''toronto'', ''vancouver'', ''london'', ''paris'', ''berlin'', ''tokyo'', ''shanghai'',
     ''emea'', ''benelux'', ''oecd'']"

text \<open>
  \<^verbatim>\<open>removeAccents(text) = text.normalize('NFD').replace(/[U+0300-U+036F]/g, '')\<close>.
  The decomposition writes an accented Latin-1 letter as its base letter followed by one
  combining mark of the deleted range, and leaves every other code unit of the range
  alone (U+00C6, U+00D0, U+00D7, U+00D8, U+00DE, U+00DF and their lower-case partners have
  no decomposition). The two steps together therefore map each code unit to its base.
\<close>

definition removeAccents_unit :: "char \<Rightarrow> char" where
  "removeAccents_unit c = (let n = (of_char c :: nat) in
     if 192 \<le> n \<and> n \<le> 197 then CHR ''A'' else if n = 199 then CHR ''C''
     else if 200 \<le> n \<and> n \<le> 203 then CHR ''E'' else if 204 \<le> n \<and> n \<le> 207 then CHR ''I''
     else if n = 209 then CHR ''N'' else if 210 \<le> n \<and> n \<le> 214 then CHR ''O''
     else if 217 \<le> n \<and> n \<le> 220 then CHR ''U'' else if n = 221 then CHR ''Y''
     else if 224 \<le> n \<and> n \<le> 229 then CHR ''a'' else if n = 231 then CHR ''c''
     else if 232 \<le> n \<and> n \<le> 235 then CHR ''e'' else if 236 \<le> n \<and> n \<le> 239 then CHR ''i''
     else if n = 241 then CHR ''n'' else if 242 \<le> n \<and> n \<le> 246 then CHR ''o''
     else if 249 \<le> n \<and> n \<le> 252 then CHR ''u'' else if n = 253 \<or> n = 255 then CHR ''y''
     else c)"

definition removeAccents :: "string \<Rightarrow> string" where
  "removeAccents text = map removeAccents_unit text"

text \<open>The three regular-expression replacements of \<^verbatim>\<open>normalizeCompanyName\<close>.\<close>

definition replace_digits :: "string \<Rightarrow> string" where
  \<comment> \<open>\<^verbatim>\<open>.replace(/\d+/g, '')\<close>\<close>
  "replace_digits s = filter (\<lambda>c. \<not> isDigit c) s"

definition replace_special :: "string \<Rightarrow> string" where
  \<comment> \<open>\<^verbatim>\<open>.replace(/[^\w\s]/g, ' ')\<close>\<close>
  "replace_special s = map (\<lambda>c. if isWord c \<or> isSpace c then c else CHR '' '') s"

fun replace_spaces :: "bool \<Rightarrow> string \<Rightarrow> string" where
  \<comment> \<open>\<^verbatim>\<open>.replace(/\s+/g, ' ')\<close>; the flag says that the run of spaces has begun\<close>
  "replace_spaces inRun [] = []"
| "replace_spaces inRun (c # cs) =
     (if isSpace c then (if inRun then replace_spaces True cs
                         else CHR '' '' # replace_spaces True cs)
      else c # replace_spaces False cs)"

text \<open>
  The function \<^verbatim>\<open>removeSuffixes\<close> is \<open>removeSuffixes_text\<close> here (the name
  \<open>removeSuffixes\<close> is the configuration field).
\<close>

definition removeSuffixes_text :: "string \<Rightarrow> string" where
  "removeSuffixes_text text =
     (let words = split text;
          filtered = filter (\<lambda>word. toLowerCase word \<notin> set BUSINESS_SUFFIXES) words
      in trim (join '' '' filtered))"

definition normalizeCompanyName :: "string \<Rightarrow> DeduplicationConfig \<Rightarrow> string" where
  "normalizeCompanyName name cfg =
     (let normalized = trim (toLowerCase name);
          normalized = (if handleAccents cfg then removeAccents normalized else normalized);
          normalized = (if removeNumbers cfg then replace_digits normalized else normalized);
          normalized = trim (replace_spaces False (replace_special normalized));
          normalized = (if removeSuffixes cfg then removeSuffixes_text normalized else normalized)
      in normalized)"

text \<open>
  \<^verbatim>\<open>extractTokens\<close>: \<^verbatim>\<open>sort()\<close> without a comparator orders strings by their code
  units, which is the lexicographic order of \<open>char list\<close>.
\<close>

definition extractTokens :: "string \<Rightarrow> string list" where
  "extractTokens normalizedName = sort (filter (\<lambda>token. length token > 0) (split normalizedName))"

definition isOnlyGeographic :: "string list \<Rightarrow> bool" where
  "isOnlyGeographic ds =
     (length ds > 0 \<and> list_all (\<lambda>d. toLowerCase d \<in> set GEOGRAPHIC_TERMS) ds)"

definition isLikelyGeographicVariant :: "string \<Rightarrow> string \<Rightarrow> bool" where
  "isLikelyGeographicVariant name1 name2 =
     (let tokens1 = new_Set (split (toLowerCase name1));
          tokens2 = new_Set (split (toLowerCase name2));
          diff1 = filter (\<lambda>token. token \<notin> set tokens2) tokens1;
          diff2 = filter (\<lambda>token. token \<notin> set tokens1) tokens2
      in isOnlyGeographic diff1 \<or> isOnlyGeographic diff2)"

definition calculateTokenOverlap :: "string \<Rightarrow> string \<Rightarrow> rat" where
  "calculateTokenOverlap name1 name2 =
     (let tokens1 = new_Set (extractTokens name1);
          tokens2 = new_Set (extractTokens name2);
          intersection = new_Set (filter (\<lambda>token. token \<in> set tokens2) tokens1);
          union = new_Set (tokens1 @ tokens2)
      in if length union > 0 then of_nat (length intersection) / of_nat (length union) else 0)"

section \<open>Matcher (\<^verbatim>\<open>src/utils/matcher.ts\<close>)\<close>

text \<open>
  \<^verbatim>\<open>calculateLevenshteinDistance\<close> fills a matrix row by row. \<open>fillRow\<close> is the inner loop
  over \<open>j\<close>: the third argument is the row \<open>i - 1\<close> from column \<open>j - 1\<close> on
  (\<open>diag\<close> is \<^verbatim>\<open>matrix[i - 1][j - 1]\<close>, \<open>up\<close> is \<^verbatim>\<open>matrix[i - 1][j]\<close>) and \<open>left\<close> is
  \<^verbatim>\<open>matrix[i][j - 1]\<close>. \<open>fillRows\<close> is the outer loop over \<open>i\<close>; the row \<open>i\<close> starts as
  \<^verbatim>\<open>[i]\<close>.
\<close>

fun fillRow :: "char \<Rightarrow> string \<Rightarrow> nat list \<Rightarrow> nat \<Rightarrow> nat list" where
  "fillRow ai (bj # bs) (diag # up # prev) left =
     (let cost = (if ai = bj then 0 else 1);
          v = min (min (up + 1) (left + 1)) (diag + cost)
      in v # fillRow ai bs (up # prev) v)"
| "fillRow ai bs prev left = []"

fun fillRows :: "string \<Rightarrow> string \<Rightarrow> nat \<Rightarrow> nat list list \<Rightarrow> nat list list" where
  "fillRows [] b i matrix = matrix"
| "fillRows (ai # as) b i matrix =
     fillRows as b (Suc i) (matrix @ [i # fillRow ai b (last matrix) i])"

definition calculateLevenshteinDistance :: "string \<Rightarrow> string \<Rightarrow> nat" where
  "calculateLevenshteinDistance a b =
     (if a = b then 0
      else if length a = 0 then length b
      else if length b = 0 then length a
      else (let matrix = fillRows a b 1 [[0 ..< Suc (length b)]]
            in matrix ! length a ! length b))"

definition calculateSimilarity :: "string \<Rightarrow> string \<Rightarrow> rat" where
  "calculateSimilarity a b =
     (let maxLen = max (length a) (length b)
      in if maxLen = 0 then 1
         else (let distance = calculateLevenshteinDistance a b
               in (of_nat maxLen - of_nat distance) / of_nat maxLen))"

definition makeMatch ::
  "string \<Rightarrow> string \<Rightarrow> string \<Rightarrow> string \<Rightarrow> rat \<Rightarrow> MatchMethod \<Rightarrow> CompanyMatch" where
  "makeMatch orig cand normOrig normCand conf meth =
     \<lparr> original = orig, candidate = cand, confidence = toFixed3 conf, matchMethod = meth,
       normalizedOriginal = normOrig, normalizedCandidate = normCand \<rparr>"

text \<open>
  Each layer is a loop over the candidates that skips the query itself and pushes at most
  one match per candidate; the model concatenates what each iteration pushes.
\<close>

definition findHighSimilarityMatches ::
  "string \<Rightarrow> string list \<Rightarrow> DeduplicationConfig \<Rightarrow> CompanyMatch list" where
  "findHighSimilarityMatches orig candidates cfg =
     (let normalizedOriginal = normalizeCompanyName orig cfg
      in concat (map (\<lambda>cand.
           if cand = orig then []
           else (let normalizedCandidate = normalizeCompanyName cand cfg;
                     score = calculateSimilarity normalizedOriginal normalizedCandidate
                 in if score \<ge> highSimilarityThreshold cfg
                    then [makeMatch orig cand normalizedOriginal normalizedCandidate score
                            high_similarity]
                    else [])) candidates))"

definition findTokenMatches ::
  "string \<Rightarrow> string list \<Rightarrow> DeduplicationConfig \<Rightarrow> CompanyMatch list" where
  "findTokenMatches orig candidates cfg =
     (let normalizedOriginal = normalizeCompanyName orig cfg
      in concat (map (\<lambda>cand.
           if cand = orig then []
           else (let normalizedCandidate = normalizeCompanyName cand cfg;
                     overlap = calculateTokenOverlap normalizedOriginal normalizedCandidate
                 in if overlap \<ge> tokenMatchThreshold cfg
                    then [makeMatch orig cand normalizedOriginal normalizedCandidate overlap
                            token_match]
                    else [])) candidates))"

text \<open>
  In \<^verbatim>\<open>findPartialMatches\<close> the quotient \<^verbatim>\<open>shorter.length / longer.length\<close> is NaN when
  both normalized forms are empty, and \<^verbatim>\<open>NaN >= threshold\<close> is false: nothing is pushed.
\<close>

definition findPartialMatches ::
  "string \<Rightarrow> string list \<Rightarrow> DeduplicationConfig \<Rightarrow> CompanyMatch list" where
  "findPartialMatches orig candidates cfg =
     (let normalizedOriginal = normalizeCompanyName orig cfg
      in concat (map (\<lambda>cand.
           if cand = orig then []
           else (let normalizedCandidate = normalizeCompanyName cand cfg;
                     shorter = (if length normalizedOriginal \<le> length normalizedCandidate
                                then normalizedOriginal else normalizedCandidate);
                     longer = (if shorter = normalizedOriginal
                               then normalizedCandidate else normalizedOriginal)
                 in if includes_str longer shorter
                    then (if length longer = 0 then []
                          else (let confidence = of_nat (length shorter) / of_nat (length longer)
                                in if confidence \<ge> partialMatchThreshold cfg
                                   then [makeMatch orig cand normalizedOriginal
                                           normalizedCandidate confidence partial_match]
                                   else []))
                    else [])) candidates))"

definition findExactMatches ::
  "string \<Rightarrow> string list \<Rightarrow> DeduplicationConfig \<Rightarrow> CompanyMatch list" where
  "findExactMatches orig candidates cfg =
     (let normalizedOriginal = normalizeCompanyName orig cfg
      in concat (map (\<lambda>cand.
           if cand = orig then []
           else (let normalizedCandidate = normalizeCompanyName cand cfg
                 in if normalizedCandidate = normalizedOriginal
                    then [makeMatch orig cand normalizedOriginal normalizedCandidate 1
                            exact_after_normalization]
                    else [])) candidates))"

text \<open>
  \<^verbatim>\<open>findAllMatches\<close>. \<open>bestMap_step\<close> is the body of the loop over \<^verbatim>\<open>combined\<close>;
  \<^verbatim>\<open>Array.from(bestMap.values())\<close> is the list of values in insertion order.
  \<^verbatim>\<open>sort((a, b) => b.confidence - a.confidence)\<close> is a stable sort by descending
  confidence (\<open>sort_key\<close> is the stable insertion sort).
\<close>

definition bestMap_step ::
  "(string \<times> CompanyMatch) list \<Rightarrow> CompanyMatch \<Rightarrow> (string \<times> CompanyMatch) list" where
  "bestMap_step bestMap m =
     (case map_of bestMap (candidate m) of
        None \<Rightarrow> Map_set (candidate m) m bestMap
      | Some existing \<Rightarrow>
          if confidence m > confidence existing then Map_set (candidate m) m bestMap
          else bestMap)"

definition combinedMatches ::
  "string \<Rightarrow> string list \<Rightarrow> DeduplicationConfig \<Rightarrow> CompanyMatch list" where
  \<comment> \<open>the array \<^verbatim>\<open>combined\<close> after the four pushes\<close>
  "combinedMatches orig candidates cfg =
     findExactMatches orig candidates cfg
   @ findHighSimilarityMatches orig candidates cfg
   @ findTokenMatches orig candidates cfg
   @ findPartialMatches orig candidates cfg"

definition findAllMatches ::
  "string \<Rightarrow> string list \<Rightarrow> DeduplicationConfig \<Rightarrow> CompanyMatch list" where
  "findAllMatches orig candidates cfg =
     (let combined = combinedMatches orig candidates cfg;
          bestMap = foldl bestMap_step [] combined;
          unique = slice0
                     (sort_key (\<lambda>m. - confidence m)
                        (filter (\<lambda>m. confidence m \<ge> minConfidenceScore cfg) (map snd bestMap)))
                     (maxResultsPerCompany cfg)
      in unique)"

section \<open>Deduplicator (\<^verbatim>\<open>src/deduplicator.ts\<close>)\<close>

text \<open>
  The loop of \<^verbatim>\<open>findDuplicates\<close> over \<^verbatim>\<open>uniqueCompanies\<close>, with its two variables
  \<^verbatim>\<open>processed\<close> and \<^verbatim>\<open>groups\<close> passed along.
\<close>

fun findDuplicates_loop ::
  "DeduplicationConfig \<Rightarrow> string list \<Rightarrow> string list \<Rightarrow> string list \<Rightarrow> DuplicateGroup list
     \<Rightarrow> DuplicateGroup list" where
  "findDuplicates_loop cfg uniqueCompanies [] processed groups = groups"
| "findDuplicates_loop cfg uniqueCompanies (company # rest) processed groups =
     (if company \<in> set processed
      then findDuplicates_loop cfg uniqueCompanies rest processed groups
      else (let matches = findAllMatches company uniqueCompanies cfg
            in if length matches \<noteq> 0
               then findDuplicates_loop cfg uniqueCompanies rest
                      (foldl Set_add (Set_add processed company) (map candidate matches))
                      (groups @ [\<lparr> groupOriginal = company, duplicates = matches,
                                   totalMatches = length matches \<rparr>])
               else findDuplicates_loop cfg uniqueCompanies rest processed groups))"

definition findDuplicates :: "CompanyDeduplicator \<Rightarrow> string list \<Rightarrow> DeduplicationResult" where
  "findDuplicates this companies =
     (let uniqueCompanies = new_Set (filter (\<lambda>c. c \<noteq> []) (map trim companies));
          groups = findDuplicates_loop (config this) uniqueCompanies uniqueCompanies [] []
      in \<lparr> totalCompanies = length uniqueCompanies, duplicateGroups = groups,
           resultConfig = config this \<rparr>)"

definition findDuplicatesForCompany ::
  "CompanyDeduplicator \<Rightarrow> string \<Rightarrow> string list \<Rightarrow> CompanyMatch list" where
  "findDuplicatesForCompany this company candidates =
     (let cleaned = filter (\<lambda>c. c \<noteq> []) (map trim candidates)
      in findAllMatches company cleaned (config this))"

section \<open>Reference notions used in the proofs\<close>

text \<open>
  The textbook recurrence of the edit distance (insertion, deletion and substitution cost
  one each), read from the front of the two lists. \<open>cell a b i j\<close> is the value the matrix
  of \<^verbatim>\<open>calculateLevenshteinDistance\<close> holds at \<^verbatim>\<open>[i][j]\<close>, the distance of the first
  \<open>i\<close> code units of \<open>a\<close> and the first \<open>j\<close> of \<open>b\<close>, and \<open>row a b i\<close> is its row \<open>i\<close>.
\<close>

fun edit_distance :: "'a list \<Rightarrow> 'a list \<Rightarrow> nat" where
  "edit_distance [] ys = length ys"
| "edit_distance (x # xs) [] = Suc (length xs)"
| "edit_distance (x # xs) (y # ys) =
     min (min (edit_distance xs (y # ys) + 1) (edit_distance (x # xs) ys + 1))
         (edit_distance xs ys + (if x = y then 0 else 1))"

definition cell :: "string \<Rightarrow> string \<Rightarrow> nat \<Rightarrow> nat \<Rightarrow> nat" where
  "cell a b i j = edit_distance (rev (take i a)) (rev (take j b))"

definition row :: "string \<Rightarrow> string \<Rightarrow> nat \<Rightarrow> nat list" where
  "row a b i = map (cell a b i) [0 ..< Suc (length b)]"

text \<open>What every match of the four layers has in common.\<close>

definition layerMatch :: "string \<Rightarrow> string list \<Rightarrow> CompanyMatch \<Rightarrow> bool" where
  "layerMatch q cs m =
     (original m = q \<and> candidate m \<in> set cs \<and> candidate m \<noteq> q \<and> confidence m \<le> 1
      \<and> (\<exists>k. confidence m = of_int k / 1000))"

text \<open>
  The invariant of the loop of \<^verbatim>\<open>findDuplicates\<close>: the representatives and the
  match targets of the groups formed so far are in \<^verbatim>\<open>processed\<close>; the representatives are
  pairwise different; no group lists a candidate twice; no representative is a match
  target of an earlier group.
\<close>

definition claimInvariant :: "string list \<Rightarrow> DuplicateGroup list \<Rightarrow> bool" where
  "claimInvariant processed groups =
     (groupOriginal ` set groups \<subseteq> set processed
      \<and> (\<forall>g \<in> set groups. candidate ` set (duplicates g) \<subseteq> set processed)
      \<and> distinct (map groupOriginal groups)
      \<and> list_all (\<lambda>g. distinct (map candidate (duplicates g))) groups
      \<and> sorted_wrt (\<lambda>g h. groupOriginal h \<notin> candidate ` set (duplicates g)) groups)"

text \<open>
  Notions for the shape of a normalized name. \<open>lowWord\<close> is a lower-case letter, a digit
  or the underscore; \<open>notUpper\<close> excludes the code units that have a lower-case mapping;
  \<open>trimEnd\<close> strips trailing white space. A \<open>wordList\<close> is a list of non-empty words
  over \<open>lowWord\<close> code units, without digits when the configuration removes numbers:
  a normalized name is such a list joined by single spaces.
\<close>

definition lowWord :: "char \<Rightarrow> bool" where
  "lowWord c = (let n = (of_char c :: nat)
     in (97 \<le> n \<and> n \<le> 122) \<or> (48 \<le> n \<and> n \<le> 57) \<or> n = 95)"

definition asciiUpper :: "char \<Rightarrow> bool" where
  "asciiUpper c = (let n = (of_char c :: nat) in 65 \<le> n \<and> n \<le> 90)"

definition notUpper :: "char \<Rightarrow> bool" where
  "notUpper c = (let n = (of_char c :: nat)
     in \<not> (65 \<le> n \<and> n \<le> 90) \<and> \<not> (192 \<le> n \<and> n \<le> 222 \<and> n \<noteq> 215))"

definition trimEnd :: "string \<Rightarrow> string" where
  "trimEnd s = rev (dropWhile isSpace (rev s))"

definition okChar :: "DeduplicationConfig \<Rightarrow> char \<Rightarrow> bool" where
  "okChar cfg c = (lowWord c \<and> (removeNumbers cfg \<longrightarrow> \<not> isDigit c))"

definition wordList :: "DeduplicationConfig \<Rightarrow> string list \<Rightarrow> bool" where
  "wordList cfg ws = (\<forall>w \<in> set ws. w \<noteq> [] \<and> (\<forall>c \<in> set w. okChar cfg c))"

section \<open>Properties\<close>

subsection \<open>Configuration\<close>

text \<open>
  Claim C9. The three presets carry the values of the specification's table: balanced is
  0.85, 0.80, 0.70, 0.75 and 10; conservative is 0.92, 0.88, 0.85, 0.85 with a limit between
  5 and 10; aggressive is 0.78, 0.70, 0.60, 0.60 and 15; every preset removes suffixes,
  handles accents and keeps numbers. This holds of the table of \<^verbatim>\<open>src/config.ts\<close> and of
  the earlier copy of it alike.
\<close>

theorem CONFIG_PRESETS_table:
  "(let T = CONFIG_PRESETS in
      highSimilarityThreshold (T balanced) = 85 / 100 \<and> tokenMatchThreshold (T balanced) = 80 / 100
    \<and> partialMatchThreshold (T balanced) = 70 / 100 \<and> minConfidenceScore (T balanced) = 75 / 100
    \<and> maxResultsPerCompany (T balanced) = 10
    \<and> highSimilarityThreshold (T conservative) = 92 / 100
    \<and> tokenMatchThreshold (T conservative) = 88 / 100
    \<and> partialMatchThreshold (T conservative) = 85 / 100
    \<and> minConfidenceScore (T conservative) = 85 / 100
    \<and> 5 \<le> maxResultsPerCompany (T conservative) \<and> maxResultsPerCompany (T conservative) \<le> 10
    \<and> highSimilarityThreshold (T aggressive) = 78 / 100
    \<and> tokenMatchThreshold (T aggressive) = 70 / 100
    \<and> partialMatchThreshold (T aggressive) = 60 / 100
    \<and> minConfidenceScore (T aggressive) = 60 / 100
    \<and> maxResultsPerCompany (T aggressive) = 15
    \<and> (\<forall>p. removeSuffixes (T p) \<and> handleAccents (T p) \<and> \<not> removeNumbers (T p)))
 \<and> (let T = CONFIG_PRESETS_earlier in
      highSimilarityThreshold (T balanced) = 85 / 100 \<and> tokenMatchThreshold (T balanced) = 80 / 100
    \<and> partialMatchThreshold (T balanced) = 70 / 100 \<and> minConfidenceScore (T balanced) = 75 / 100
    \<and> maxResultsPerCompany (T balanced) = 10
    \<and> highSimilarityThreshold (T conservative) = 92 / 100
    \<and> tokenMatchThreshold (T conservative) = 88 / 100
    \<and> partialMatchThreshold (T conservative) = 85 / 100
    \<and> minConfidenceScore (T conservative) = 85 / 100
    \<and> 5 \<le> maxResultsPerCompany (T conservative) \<and> maxResultsPerCompany (T conservative) \<le> 10
    \<and> highSimilarityThreshold (T aggressive) = 78 / 100
    \<and> tokenMatchThreshold (T aggressive) = 70 / 100
    \<and> partialMatchThreshold (T aggressive) = 60 / 100
    \<and> minConfidenceScore (T aggressive) = 60 / 100
    \<and> maxResultsPerCompany (T aggressive) = 15
    \<and> (\<forall>p. removeSuffixes (T p) \<and> handleAccents (T p) \<and> \<not> removeNumbers (T p)))"
proof -
  have all_presets: "\<And>P. (\<forall>p. P p) = (P conservative \<and> P balanced \<and> P aggressive)"
    by (metis ConfigPreset.exhaust)
  show ?thesis
    unfolding Let_def all_presets by simp
qed

text \<open>
  On a configuration whose fields are proper numbers \<^verbatim>\<open>validateConfig\<close> reports every
  field that is out of range, not the first one only: the number of messages is the number
  of violated fields, and the message of each field is in the list exactly when that field
  is violated (a threshold below 0 or above 1, a limit of 0 or less). The constructor of
  \<^verbatim>\<open>CompanyDeduplicator\<close> throws when any field is violated, with all the messages, and
  returns the object otherwise; it does nothing else, and the matching methods need the
  object it returns.
\<close>

lemma validateConfig_reports_every_field:
  "length (validateConfig cfg) =
     (if highSimilarityThreshold cfg < 0 \<or> highSimilarityThreshold cfg > 1 then 1 else 0)
   + (if tokenMatchThreshold cfg < 0 \<or> tokenMatchThreshold cfg > 1 then 1 else 0)
   + (if partialMatchThreshold cfg < 0 \<or> partialMatchThreshold cfg > 1 then 1 else 0)
   + (if minConfidenceScore cfg < 0 \<or> minConfidenceScore cfg > 1 then 1 else 0)
   + (if maxResultsPerCompany cfg \<le> 0 then 1 else 0)
  \<and> (''highSimilarityThreshold must be between 0 and 1'' \<in> set (validateConfig cfg))
      = (highSimilarityThreshold cfg < 0 \<or> highSimilarityThreshold cfg > 1)
  \<and> (''tokenMatchThreshold must be between 0 and 1'' \<in> set (validateConfig cfg))
      = (tokenMatchThreshold cfg < 0 \<or> tokenMatchThreshold cfg > 1)
  \<and> (''partialMatchThreshold must be between 0 and 1'' \<in> set (validateConfig cfg))
      = (partialMatchThreshold cfg < 0 \<or> partialMatchThreshold cfg > 1)
  \<and> (''minConfidenceScore must be between 0 and 1'' \<in> set (validateConfig cfg))
      = (minConfidenceScore cfg < 0 \<or> minConfidenceScore cfg > 1)
  \<and> (''maxResultsPerCompany must be > 0'' \<in> set (validateConfig cfg))
      = (maxResultsPerCompany cfg \<le> 0)
  \<and> new_CompanyDeduplicator cfg =
      (if highSimilarityThreshold cfg < 0 \<or> highSimilarityThreshold cfg > 1
        \<or> tokenMatchThreshold cfg < 0 \<or> tokenMatchThreshold cfg > 1
        \<or> partialMatchThreshold cfg < 0 \<or> partialMatchThreshold cfg > 1
        \<or> minConfidenceScore cfg < 0 \<or> minConfidenceScore cfg > 1
        \<or> maxResultsPerCompany cfg \<le> 0
       then Inl (Error (''Invalid config: '' @ join '', '' (validateConfig cfg)))
       else Inr \<lparr> config = cfg \<rparr>)"
  by (simp add: validateConfig_def between0and1_def new_CompanyDeduplicator_def)

lemma validateConfig_object_asObject:
  "validateConfig_object (asObject cfg) = validateConfig cfg"
  by (simp add: validateConfig_object_def asObject_def validateConfig_def
      between0and1_object_def between0and1_def)

lemma new_CompanyDeduplicator_object_asObject:
  "new_CompanyDeduplicator_object (asObject cfg) =
     (case new_CompanyDeduplicator cfg of Inl e \<Rightarrow> Inl e | Inr d \<Rightarrow> Inr (asObject (config d)))"
  by (simp add: new_CompanyDeduplicator_object_def new_CompanyDeduplicator_def
      validateConfig_object_asObject Let_def)

lemma between0and1_object_Num:
  "between0and1_object (Num r) field =
     (if r < 0 \<or> r > 1 then [field @ '' must be between 0 and 1''] else [])"
  by (simp add: between0and1_object_def)

lemma between0and1_object_NaN: "between0and1_object NaN field = []"
  by (simp add: between0and1_object_def)

text \<open>
  Claim C6. The claim is about every configuration value, and it fails for one with a
  field that holds \<^verbatim>\<open>NaN\<close>. A threshold \<^verbatim>\<open>NaN\<close> is not between 0 and 1, which is what the
  message of \<^verbatim>\<open>validateConfig\<close> requires of it, yet both comparisons of
  \<^verbatim>\<open>v < 0 || v > 1\<close> are false: for the balanced preset with \<open>highSimilarityThreshold\<close>
  replaced by \<^verbatim>\<open>NaN\<close> (what \<^verbatim>\<open>--min-similarity abc\<close> produces) \<^verbatim>\<open>validateConfig\<close> returns
  no message and the constructor returns the object instead of throwing. The same holds
  when all five numeric fields are \<^verbatim>\<open>NaN\<close>.
\<close>

theorem validateConfig_accepts_NaN:
  "validateConfig_object
     ((asObject (CONFIG_PRESETS balanced))\<lparr>obj_highSimilarityThreshold := NaN\<rparr>) = []
   \<and> new_CompanyDeduplicator_object
       ((asObject (CONFIG_PRESETS balanced))\<lparr>obj_highSimilarityThreshold := NaN\<rparr>)
     = Inr ((asObject (CONFIG_PRESETS balanced))\<lparr>obj_highSimilarityThreshold := NaN\<rparr>)
   \<and> validateConfig_object
       \<lparr> obj_highSimilarityThreshold = NaN, obj_tokenMatchThreshold = NaN,
         obj_partialMatchThreshold = NaN, obj_removeSuffixes = True, obj_handleAccents = True,
         obj_removeNumbers = False, obj_minConfidenceScore = NaN,
         obj_maxResultsPerCompany = NaN \<rparr> = []"
  by (simp add: validateConfig_object_def new_CompanyDeduplicator_object_def asObject_def
      between0and1_object_def)

subsection \<open>Auxiliary facts: rounding and loops as maps\<close>

lemma floor_half_int: "\<lfloor>(of_int k :: rat) + 1 / 2\<rfloor> = k"
  by (rule floor_unique) simp_all

lemma toFixed3_of_int: "toFixed3 (of_int k / 1000) = of_int k / 1000"
proof (cases "k < 0")
  case True
  have "\<lfloor>- (of_int k / 1000 :: rat) * 1000 + 1 / 2\<rfloor> = \<lfloor>(of_int (- k) :: rat) + 1 / 2\<rfloor>"
    by simp
  also have "\<dots> = - k" by (rule floor_half_int)
  finally show ?thesis using True by (simp add: toFixed3_def)
next
  case False
  have "\<lfloor>(of_int k / 1000 :: rat) * 1000 + 1 / 2\<rfloor> = \<lfloor>(of_int k :: rat) + 1 / 2\<rfloor>"
    by simp
  also have "\<dots> = k" by (rule floor_half_int)
  finally show ?thesis using False by (simp add: toFixed3_def)
qed

lemma toFixed3_is_int: "\<exists>k. toFixed3 x = of_int k / 1000"
  unfolding toFixed3_def
  by (cases "x < 0") (auto intro: exI [where x = "- \<lfloor>- x * 1000 + 1 / 2\<rfloor>"])

lemma toFixed3_idem: "toFixed3 (toFixed3 x) = toFixed3 x"
proof -
  obtain k where k: "toFixed3 x = of_int k / 1000"
    using toFixed3_is_int by blast
  show ?thesis unfolding k by (rule toFixed3_of_int)
qed

lemma toFixed3_1: "toFixed3 1 = 1"
  using toFixed3_of_int [of 1000] by simp

lemma toFixed3_le_1: "x \<le> 1 \<Longrightarrow> toFixed3 x \<le> 1"
proof -
  assume x: "x \<le> 1"
  show ?thesis
  proof (cases "x < 0")
    case True
    have "0 \<le> \<lfloor>- x * 1000 + 1 / 2\<rfloor>" using True by simp
    then have "0 \<le> (of_int \<lfloor>- x * 1000 + 1 / 2\<rfloor> :: rat) / 1000" by simp
    then have "- ((of_int \<lfloor>- x * 1000 + 1 / 2\<rfloor> :: rat) / 1000) \<le> 1" by linarith
    then show ?thesis using True unfolding toFixed3_def by presburger
  next
    case False
    have "x * 1000 + 1 / 2 < 1001" using x by simp
    then have "\<lfloor>x * 1000 + 1 / 2\<rfloor> < 1001" by (simp add: floor_less_iff)
    then have "\<lfloor>x * 1000 + 1 / 2\<rfloor> \<le> 1000" by simp
    then have "(of_int \<lfloor>x * 1000 + 1 / 2\<rfloor> :: rat) \<le> 1000" by linarith
    then show ?thesis using False by (simp add: toFixed3_def)
  qed
qed

lemma toFixed3_nonneg: "0 \<le> x \<Longrightarrow> 0 \<le> toFixed3 x"
  by (simp add: toFixed3_def)

lemma concat_map_if:
  "concat (map (\<lambda>x. if P x then [f x] else []) xs) = map f (filter P xs)"
  by (induction xs) auto

subsection \<open>The matching layers\<close>

text \<open>
  Claim C3, as amended. For every query \<open>q\<close>, candidate list and configuration, the exact
  layer produces one match, with confidence 1, for each candidate that differs from \<open>q\<close>
  as a raw string and whose normalized form equals that of \<open>q\<close>, and for no other
  candidate. The normalized forms need not be non-empty.
\<close>

theorem findExactMatches_iff:
  "findExactMatches q cs cfg =
     map (\<lambda>c. makeMatch q c (normalizeCompanyName q cfg) (normalizeCompanyName c cfg) 1
                exact_after_normalization)
         (filter (\<lambda>c. c \<noteq> q \<and> normalizeCompanyName c cfg = normalizeCompanyName q cfg) cs)
   \<and> confidence (makeMatch q c (normalizeCompanyName q cfg) (normalizeCompanyName c cfg) 1
                   exact_after_normalization) = 1"
proof -
  have "findExactMatches q cs cfg =
     concat (map (\<lambda>c. if c \<noteq> q \<and> normalizeCompanyName c cfg = normalizeCompanyName q cfg
        then [makeMatch q c (normalizeCompanyName q cfg) (normalizeCompanyName c cfg) 1
                exact_after_normalization] else []) cs)"
    unfolding findExactMatches_def Let_def
    by (rule arg_cong [where f = concat], rule map_cong) auto
  then show ?thesis
    by (simp add: concat_map_if makeMatch_def toFixed3_1)
qed

text \<open>
  The claim as stated fails: under the balanced preset \<^verbatim>\<open>"Inc"\<close> and \<^verbatim>\<open>"Ltd"\<close> both
  normalize to the empty string, and the exact layer matches them with confidence 1.
\<close>

theorem findExactMatches_empty_counterexample:
  "normalizeCompanyName ''Inc'' (CONFIG_PRESETS balanced) = []
   \<and> normalizeCompanyName ''Ltd'' (CONFIG_PRESETS balanced) = []
   \<and> findExactMatches ''Inc'' [''Ltd''] (CONFIG_PRESETS balanced) =
       [\<lparr> original = ''Inc'', candidate = ''Ltd'', confidence = 1,
          matchMethod = exact_after_normalization, normalizedOriginal = [],
          normalizedCandidate = [] \<rparr>]"
  by code_simp

lemma toFixed3_near: "\<bar>toFixed3 x - x\<bar> \<le> 1 / 2000"
proof (cases "x < 0")
  case True
  define n where "n = \<lfloor>- x * 1000 + 1 / 2\<rfloor>"
  have lo: "of_int n \<le> - x * 1000 + 1 / 2" unfolding n_def by (rule of_int_floor_le)
  have hi: "- x * 1000 + 1 / 2 < of_int n + 1" unfolding n_def by linarith
  have t: "toFixed3 x = - (of_int n / 1000)" using True by (simp add: toFixed3_def n_def)
  have "- (of_int n / 1000) - x \<le> 1 / 2000" using hi by linarith
  moreover have "- (- (of_int n / 1000) - x) \<le> 1 / 2000" using lo by linarith
  ultimately show ?thesis unfolding t abs_le_iff by blast
next
  case False
  define n where "n = \<lfloor>x * 1000 + 1 / 2\<rfloor>"
  have lo: "of_int n \<le> x * 1000 + 1 / 2" unfolding n_def by (rule of_int_floor_le)
  have hi: "x * 1000 + 1 / 2 < of_int n + 1" unfolding n_def by linarith
  have t: "toFixed3 x = of_int n / 1000" using False by (simp add: toFixed3_def n_def)
  have "of_int n / 1000 - x \<le> 1 / 2000" using lo by linarith
  moreover have "- (of_int n / 1000 - x) \<le> 1 / 2000" using hi by linarith
  ultimately show ?thesis unfolding t abs_le_iff by blast
qed

lemma findTokenMatches_map_filter:
  "findTokenMatches q cs cfg =
     map (\<lambda>c. makeMatch q c (normalizeCompanyName q cfg) (normalizeCompanyName c cfg)
                (calculateTokenOverlap (normalizeCompanyName q cfg) (normalizeCompanyName c cfg))
                token_match)
         (filter (\<lambda>c. c \<noteq> q \<and> calculateTokenOverlap (normalizeCompanyName q cfg)
                     (normalizeCompanyName c cfg) \<ge> tokenMatchThreshold cfg) cs)"
proof -
  have "findTokenMatches q cs cfg =
     concat (map (\<lambda>c. if c \<noteq> q \<and> calculateTokenOverlap (normalizeCompanyName q cfg)
                     (normalizeCompanyName c cfg) \<ge> tokenMatchThreshold cfg
        then [makeMatch q c (normalizeCompanyName q cfg) (normalizeCompanyName c cfg)
                (calculateTokenOverlap (normalizeCompanyName q cfg) (normalizeCompanyName c cfg))
                token_match] else []) cs)"
    unfolding findTokenMatches_def Let_def
    by (rule arg_cong [where f = concat], rule map_cong) auto
  then show ?thesis
    by (simp add: concat_map_if)
qed

text \<open>
  Claim C1, as amended. For every query \<open>q\<close>, candidate list and configuration, the token
  layer accepts a candidate if and only if it differs from \<open>q\<close> as a raw string and the
  token overlap of the two normalized forms is at least \<open>tokenMatchThreshold\<close>: the
  candidates of its matches are those candidates, in the order and number of the list.
  Each match carries the query, the method \<^verbatim>\<open>token_match\<close> and the two normalized forms,
  and its confidence is that overlap to three decimals: a multiple of 1/1000 at most
  1/2000 away from the overlap. Nothing is added for a geographic variant.
\<close>

theorem findTokenMatches_unboosted:
  "map candidate (findTokenMatches q cs cfg) =
     filter (\<lambda>c. c \<noteq> q \<and> calculateTokenOverlap (normalizeCompanyName q cfg)
                 (normalizeCompanyName c cfg) \<ge> tokenMatchThreshold cfg) cs
   \<and> (\<forall>m \<in> set (findTokenMatches q cs cfg).
         original m = q \<and> matchMethod m = token_match
       \<and> normalizedOriginal m = normalizeCompanyName q cfg
       \<and> normalizedCandidate m = normalizeCompanyName (candidate m) cfg
       \<and> (\<exists>k. confidence m = of_int k / 1000)
       \<and> \<bar>confidence m - calculateTokenOverlap (normalizeCompanyName q cfg)
                            (normalizeCompanyName (candidate m) cfg)\<bar> \<le> 1 / 2000)"
proof (intro conjI ballI)
  show "map candidate (findTokenMatches q cs cfg) =
     filter (\<lambda>c. c \<noteq> q \<and> calculateTokenOverlap (normalizeCompanyName q cfg)
                 (normalizeCompanyName c cfg) \<ge> tokenMatchThreshold cfg) cs"
    unfolding findTokenMatches_map_filter by (simp add: makeMatch_def comp_def)
next
  fix m assume "m \<in> set (findTokenMatches q cs cfg)"
  then obtain c where m: "m = makeMatch q c (normalizeCompanyName q cfg)
      (normalizeCompanyName c cfg)
      (calculateTokenOverlap (normalizeCompanyName q cfg) (normalizeCompanyName c cfg)) token_match"
    unfolding findTokenMatches_map_filter by auto
  show "original m = q" "matchMethod m = token_match"
    "normalizedOriginal m = normalizeCompanyName q cfg"
    "normalizedCandidate m = normalizeCompanyName (candidate m) cfg"
    unfolding m by (simp_all add: makeMatch_def)
  show "\<exists>k. confidence m = of_int k / 1000"
    unfolding m using toFixed3_is_int by (simp add: makeMatch_def)
  show "\<bar>confidence m - calculateTokenOverlap (normalizeCompanyName q cfg)
                            (normalizeCompanyName (candidate m) cfg)\<bar> \<le> 1 / 2000"
    unfolding m using toFixed3_near by (simp add: makeMatch_def)
qed

theorem findTokenMatches_unboosted_witness:
  "map candidate (findTokenMatches ''alpha beta gamma'' [''alpha beta gamma usa'', ''delta'']
       (CONFIG_PRESETS aggressive)) =
     filter (\<lambda>c. c \<noteq> ''alpha beta gamma''
               \<and> calculateTokenOverlap
                   (normalizeCompanyName ''alpha beta gamma'' (CONFIG_PRESETS aggressive))
                   (normalizeCompanyName c (CONFIG_PRESETS aggressive))
                 \<ge> tokenMatchThreshold (CONFIG_PRESETS aggressive))
       [''alpha beta gamma usa'', ''delta'']
   \<and> list_all (\<lambda>m. original m = ''alpha beta gamma'' \<and> matchMethod m = token_match
         \<and> normalizedOriginal m =
             normalizeCompanyName ''alpha beta gamma'' (CONFIG_PRESETS aggressive)
         \<and> normalizedCandidate m = normalizeCompanyName (candidate m) (CONFIG_PRESETS aggressive)
         \<and> (\<exists>k. confidence m = of_int k / 1000)
         \<and> \<bar>confidence m - calculateTokenOverlap
               (normalizeCompanyName ''alpha beta gamma'' (CONFIG_PRESETS aggressive))
               (normalizeCompanyName (candidate m) (CONFIG_PRESETS aggressive))\<bar> \<le> 1 / 2000)
       (findTokenMatches ''alpha beta gamma'' [''alpha beta gamma usa'', ''delta'']
          (CONFIG_PRESETS aggressive))
   \<and> map (\<lambda>m. (candidate m, confidence m))
       (findTokenMatches ''alpha beta gamma'' [''alpha beta gamma usa'', ''delta'']
          (CONFIG_PRESETS aggressive))
     = [(''alpha beta gamma usa'', 3 / 4)]"
proof -
  note t = findTokenMatches_unboosted [of "''alpha beta gamma''"
      "[''alpha beta gamma usa'', ''delta'']" "CONFIG_PRESETS aggressive"]
  have ev: "map (\<lambda>m. (candidate m, confidence m))
       (findTokenMatches ''alpha beta gamma'' [''alpha beta gamma usa'', ''delta'']
          (CONFIG_PRESETS aggressive))
     = [(''alpha beta gamma usa'', 3 / 4)]"
    by code_simp
  show ?thesis
    by (intro conjI t [THEN conjunct1] t [THEN conjunct2, folded list_all_iff] ev)
qed

text \<open>
  The claim as stated fails: under the balanced preset the pair
  \<^verbatim>\<open>"alpha beta gamma"\<close>, \<^verbatim>\<open>"alpha beta gamma usa"\<close> is a geographic variant with overlap
  3/4, so the boosted confidence 0.85 would reach the threshold 0.80, and the token layer
  accepts nothing.
\<close>

theorem findTokenMatches_boost_counterexample:
  "isLikelyGeographicVariant
     (normalizeCompanyName ''alpha beta gamma'' (CONFIG_PRESETS balanced))
     (normalizeCompanyName ''alpha beta gamma usa'' (CONFIG_PRESETS balanced))
   \<and> calculateTokenOverlap
        (normalizeCompanyName ''alpha beta gamma'' (CONFIG_PRESETS balanced))
        (normalizeCompanyName ''alpha beta gamma usa'' (CONFIG_PRESETS balanced)) = 3 / 4
   \<and> min 1 (calculateTokenOverlap
        (normalizeCompanyName ''alpha beta gamma'' (CONFIG_PRESETS balanced))
        (normalizeCompanyName ''alpha beta gamma usa'' (CONFIG_PRESETS balanced)) + 1 / 10)
       \<ge> tokenMatchThreshold (CONFIG_PRESETS balanced)
   \<and> findTokenMatches ''alpha beta gamma'' [''alpha beta gamma usa''] (CONFIG_PRESETS balanced) = []"
  by code_simp

subsection \<open>The edit distance\<close>

lemma edit_distance_Nil2: "edit_distance xs [] = length xs"
  by (cases xs) simp_all

lemma edit_distance_sym: "edit_distance xs ys = edit_distance ys xs"
  by (induction xs ys rule: edit_distance.induct)
     (simp_all add: edit_distance_Nil2 min.commute min.left_commute eq_commute)

lemma edit_distance_same: "edit_distance xs xs = 0"
  by (induction xs) simp_all

lemma cell_0_left: "j \<le> length b \<Longrightarrow> cell a b 0 j = j"
  by (simp add: cell_def)

lemma cell_0_right: "i \<le> length a \<Longrightarrow> cell a b i 0 = i"
  by (simp add: cell_def edit_distance_Nil2)

lemma cell_Suc:
  assumes "i < length a" "j < length b"
  shows "cell a b (Suc i) (Suc j) =
           min (min (cell a b i (Suc j) + 1) (cell a b (Suc i) j + 1))
               (cell a b i j + (if a ! i = b ! j then 0 else 1))"
  using assms by (simp add: cell_def take_Suc_conv_app_nth)

lemma fillRow_cells:
  assumes "i < length a" "bs = drop j b" "j \<le> length b"
  shows "fillRow (a ! i) bs (map (cell a b i) [j ..< Suc (length b)]) (cell a b (Suc i) j)
           = map (cell a b (Suc i)) [Suc j ..< Suc (length b)]"
  using assms(2,3)
proof (induction bs arbitrary: j)
  case Nil
  then have "j = length b" by simp
  then show ?case by (simp del: upt_Suc add: upt_conv_Cons)
next
  case (Cons bj bs')
  from Cons.prems(1) have "drop j b \<noteq> []" by (metis list.distinct(1))
  then have j: "j < length b" by simp
  have bj: "bj = b ! j" and bs': "bs' = drop (Suc j) b"
    using Cons.prems(1) j by (simp_all add: Cons_nth_drop_Suc [symmetric])
  have up2: "[Suc j ..< Suc (length b)] = Suc j # [Suc (Suc j) ..< Suc (length b)]"
    by (rule upt_conv_Cons) (use j in simp)
  have up1: "[j ..< Suc (length b)] = j # Suc j # [Suc (Suc j) ..< Suc (length b)]"
    unfolding up2 [symmetric] by (rule upt_conv_Cons) (use j in simp)
  have IH: "fillRow (a ! i) bs' (map (cell a b i) [Suc j ..< Suc (length b)])
              (cell a b (Suc i) (Suc j))
            = map (cell a b (Suc i)) [Suc (Suc j) ..< Suc (length b)]"
    using Cons.IH [of "Suc j"] bs' j by (simp del: upt_Suc)
  show ?case
    unfolding up1 using IH cell_Suc [OF assms(1) j] bj
    by (simp add: up2 Let_def del: upt_Suc)
qed

lemma row_Suc:
  assumes "i < length a"
  shows "Suc i # fillRow (a ! i) b (row a b i) (Suc i) = row a b (Suc i)"
proof -
  have "fillRow (a ! i) b (map (cell a b i) [0 ..< Suc (length b)]) (cell a b (Suc i) 0)
          = map (cell a b (Suc i)) [Suc 0 ..< Suc (length b)]"
    by (rule fillRow_cells [OF assms]) simp_all
  moreover have "cell a b (Suc i) 0 = Suc i"
    using assms by (simp add: cell_0_right)
  moreover have "[0 ..< Suc (length b)] = 0 # [Suc 0 ..< Suc (length b)]"
    by (rule upt_conv_Cons) simp
  ultimately show ?thesis
    unfolding row_def by (simp del: upt_Suc)
qed

lemma fillRows_rows:
  assumes "as = drop i a" "i \<le> length a"
  shows "fillRows as b (Suc i) (map (row a b) [0 ..< Suc i]) = map (row a b) [0 ..< Suc (length a)]"
  using assms
proof (induction as arbitrary: i)
  case Nil
  then have "i = length a" by simp
  then show ?case by simp
next
  case (Cons ai as')
  from Cons.prems(1) have "drop i a \<noteq> []" by (metis list.distinct(1))
  then have i: "i < length a" by simp
  have ai: "ai = a ! i" and as': "as' = drop (Suc i) a"
    using Cons.prems(1) i by (simp_all add: Cons_nth_drop_Suc [symmetric])
  have "last (map (row a b) [0 ..< Suc i]) = row a b i" by simp
  then have "map (row a b) [0 ..< Suc i] @ [Suc i # fillRow ai b (last (map (row a b) [0 ..< Suc i])) (Suc i)]
      = map (row a b) [0 ..< Suc (Suc i)]"
    using row_Suc [OF i] ai by simp
  then show ?case
    using Cons.IH [of "Suc i"] as' i by (simp del: upt_Suc)
qed

lemma row_0: "row a b 0 = [0 ..< Suc (length b)]"
  unfolding row_def by (rule map_idI) (auto simp: cell_0_left)

lemma calculateLevenshteinDistance_edit_distance:
  "calculateLevenshteinDistance a b = edit_distance (rev a) (rev b)"
proof -
  have "fillRows a b (Suc 0) [[0 ..< Suc (length b)]] = map (row a b) [0 ..< Suc (length a)]"
    using fillRows_rows [of a 0 a b] by (simp add: row_0)
  then have "fillRows a b 1 [[0 ..< Suc (length b)]] ! length a ! length b
               = cell a b (length a) (length b)"
    by (simp add: row_def nth_append del: upt_Suc)
  then show ?thesis
    by (auto simp: calculateLevenshteinDistance_def cell_def Let_def edit_distance_same
        edit_distance_Nil2)
qed

lemma calculateLevenshteinDistance_sym:
  "calculateLevenshteinDistance a b = calculateLevenshteinDistance b a"
  by (simp add: calculateLevenshteinDistance_edit_distance edit_distance_sym [of "rev a"])

text \<open>
  Claim C8. Similarity is symmetric: \<open>calculateSimilarity a b\<close> equals
  \<open>calculateSimilarity b a\<close> for all strings, and the similarity of two empty strings is 1.
\<close>

theorem calculateSimilarity_symmetric:
  "calculateSimilarity a b = calculateSimilarity b a \<and> calculateSimilarity [] [] = 1"
  by (simp add: calculateSimilarity_def Let_def max.commute
      calculateLevenshteinDistance_sym [of a b])

subsection \<open>Sets, the best-match map and the matches of the layers\<close>

lemma set_foldl_Set_add: "set (foldl Set_add acc xs) = set acc \<union> set xs"
  by (induction xs arbitrary: acc) (auto simp: Set_add_def)

lemma distinct_foldl_Set_add: "distinct acc \<Longrightarrow> distinct (foldl Set_add acc xs)"
  by (induction xs arbitrary: acc) (auto simp: Set_add_def)

lemma set_new_Set: "set (new_Set xs) = set xs"
  by (simp add: new_Set_def set_foldl_Set_add)

lemma distinct_new_Set: "distinct (new_Set xs)"
  by (simp add: new_Set_def distinct_foldl_Set_add)

lemma calculateTokenOverlap_le_1: "calculateTokenOverlap n1 n2 \<le> 1"
proof -
  define t1 where "t1 = new_Set (extractTokens n1)"
  define t2 where "t2 = new_Set (extractTokens n2)"
  define inter where "inter = new_Set (filter (\<lambda>token. token \<in> set t2) t1)"
  define un where "un = new_Set (t1 @ t2)"
  have "set inter \<subseteq> set un"
    by (auto simp: inter_def un_def set_new_Set)
  then have "card (set inter) \<le> card (set un)"
    by (simp add: card_mono)
  then have le: "length inter \<le> length un"
    by (simp add: inter_def un_def distinct_card [OF distinct_new_Set])
  have "calculateTokenOverlap n1 n2 =
          (if length un > 0 then of_nat (length inter) / of_nat (length un) else 0)"
    by (simp add: calculateTokenOverlap_def Let_def t1_def t2_def inter_def un_def)
  then show ?thesis using le by (simp add: divide_le_eq_1)
qed

lemma similarity_quotient_le_1:
  "0 < n \<Longrightarrow> (of_nat n - of_nat d) / (of_nat n :: rat) \<le> 1"
  by (simp add: divide_le_eq_1)

lemma calculateSimilarity_le_1: "calculateSimilarity a b \<le> 1"
proof (cases "max (length a) (length b) = 0")
  case True
  then show ?thesis by (simp add: calculateSimilarity_def Let_def)
next
  case False
  then have "0 < max (length a) (length b)" by arith
  from similarity_quotient_le_1 [OF this] False show ?thesis
    unfolding calculateSimilarity_def Let_def by presburger
qed

lemma map_of_Map_set: "map_of (Map_set k v ps) = (map_of ps)(k \<mapsto> v)"
  by (induction ps) (auto simp: fun_eq_iff)

lemma map_fst_Map_set:
  "map fst (Map_set k v ps) = (if k \<in> fst ` set ps then map fst ps else map fst ps @ [k])"
  by (induction ps) auto

lemma set_Map_set: "set (Map_set k v ps) \<subseteq> insert (k, v) (set ps)"
  by (induction ps) auto

lemma map_fst_bestMap_step:
  "map fst (bestMap_step bm m) = Set_add (map fst bm) (candidate m)"
  by (auto simp: bestMap_step_def Set_add_def map_fst_Map_set map_of_eq_None_iff
      split: option.splits dest: map_of_SomeD intro: rev_image_eqI)

lemma map_fst_bestMap:
  "map fst (foldl bestMap_step bm ms) = foldl Set_add (map fst bm) (map candidate ms)"
  by (induction ms arbitrary: bm) (simp_all add: map_fst_bestMap_step)

lemma bestMap_step_entries:
  assumes "\<forall>(k, v) \<in> set bm. k = candidate v \<and> v \<in> A" "m \<in> A"
  shows "\<forall>(k, v) \<in> set (bestMap_step bm m). k = candidate v \<and> v \<in> A"
  using assms set_Map_set [of "candidate m" m bm]
  by (auto simp: bestMap_step_def split: option.splits)

lemma bestMap_entries:
  assumes "\<forall>(k, v) \<in> set bm. k = candidate v \<and> v \<in> A" "set ms \<subseteq> A"
  shows "\<forall>(k, v) \<in> set (foldl bestMap_step bm ms). k = candidate v \<and> v \<in> A"
  using assms
proof (induction ms arbitrary: bm)
  case Nil
  then show ?case by simp
next
  case (Cons m ms)
  have "\<forall>(k, v) \<in> set (bestMap_step bm m). k = candidate v \<and> v \<in> A"
    by (rule bestMap_step_entries) (use Cons.prems in auto)
  then show ?case using Cons.IH Cons.prems(2) by simp
qed

lemma layerMatch_makeMatch:
  "c \<in> set cs \<Longrightarrow> c \<noteq> q \<Longrightarrow> x \<le> 1 \<Longrightarrow> layerMatch q cs (makeMatch q c n1 n2 x meth)"
  using toFixed3_is_int [of x] by (simp add: layerMatch_def makeMatch_def toFixed3_le_1)

lemma findExactMatches_layer:
  "m \<in> set (findExactMatches q cs cfg) \<Longrightarrow> layerMatch q cs m"
  by (auto simp: findExactMatches_def Let_def layerMatch_makeMatch split: if_splits)

lemma findHighSimilarityMatches_layer:
  "m \<in> set (findHighSimilarityMatches q cs cfg) \<Longrightarrow> layerMatch q cs m"
  by (auto simp: findHighSimilarityMatches_def Let_def layerMatch_makeMatch
      calculateSimilarity_le_1 split: if_splits)

lemma findTokenMatches_layer:
  "m \<in> set (findTokenMatches q cs cfg) \<Longrightarrow> layerMatch q cs m"
  by (auto simp: findTokenMatches_def Let_def layerMatch_makeMatch
      calculateTokenOverlap_le_1 split: if_splits)

lemma partial_quotient_le_1:
  "length s \<le> length l \<Longrightarrow> (of_nat (length s) :: rat) / of_nat (length l) \<le> 1"
  by (cases "length l = 0") (simp_all add: divide_le_eq_1)

lemma findPartialMatches_layer:
  assumes "m \<in> set (findPartialMatches q cs cfg)"
  shows "layerMatch q cs m"
proof -
  define nO where "nO = normalizeCompanyName q cfg"
  define nC where "nC c = normalizeCompanyName c cfg" for c
  define sh where "sh c = (if length nO \<le> length (nC c) then nO else nC c)" for c
  define lo where "lo c = (if sh c = nO then nC c else nO)" for c
  have len: "length (sh c) \<le> length (lo c)" for c
    by (auto simp: sh_def lo_def)
  have eq: "findPartialMatches q cs cfg =
    concat (map (\<lambda>c. if c = q then []
      else if includes_str (lo c) (sh c)
           then (if length (lo c) = 0 then []
                 else if of_nat (length (sh c)) / of_nat (length (lo c)) \<ge> partialMatchThreshold cfg
                      then [makeMatch q c nO (nC c)
                              (of_nat (length (sh c)) / of_nat (length (lo c))) partial_match]
                      else [])
           else []) cs)"
    unfolding findPartialMatches_def Let_def sh_def lo_def nO_def nC_def ..
  from assms obtain c where c: "c \<in> set cs" "c \<noteq> q"
      "m = makeMatch q c nO (nC c) (of_nat (length (sh c)) / of_nat (length (lo c))) partial_match"
    unfolding eq by (auto split: if_splits)
  show ?thesis
    unfolding c(3) using c(1,2) len by (intro layerMatch_makeMatch partial_quotient_le_1)
qed

lemma combinedMatches_layer:
  "m \<in> set (combinedMatches q cs cfg) \<Longrightarrow> layerMatch q cs m"
  unfolding combinedMatches_def
  using findExactMatches_layer findHighSimilarityMatches_layer findTokenMatches_layer
    findPartialMatches_layer by auto

lemma slice0_take: "\<exists>k. slice0 xs n = take k xs"
  unfolding slice0_def by (cases "n < 0") auto

lemma length_slice0: "0 \<le> n \<Longrightarrow> int (length (slice0 xs n)) \<le> n"
  by (simp add: slice0_def)

lemma bestMap_values:
  fixes q cs cfg
  defines "bm \<equiv> foldl bestMap_step [] (combinedMatches q cs cfg)"
  shows "map candidate (map snd bm) = new_Set (map candidate (combinedMatches q cs cfg))"
    and "set (map snd bm) \<subseteq> set (combinedMatches q cs cfg)"
proof -
  have ent: "\<forall>(k, v) \<in> set bm. k = candidate v \<and> v \<in> set (combinedMatches q cs cfg)"
    unfolding bm_def by (rule bestMap_entries) simp_all
  then have "map (candidate \<circ> snd) bm = map fst bm"
    by (intro map_cong) auto
  then show "map candidate (map snd bm) = new_Set (map candidate (combinedMatches q cs cfg))"
    by (simp add: bm_def map_fst_bestMap new_Set_def)
  show "set (map snd bm) \<subseteq> set (combinedMatches q cs cfg)"
    using ent by auto
qed

lemma findAllMatches_take:
  "\<exists>k. findAllMatches q cs cfg =
     take k (sort_key (\<lambda>m. - confidence m)
       (filter (\<lambda>m. confidence m \<ge> minConfidenceScore cfg)
          (map snd (foldl bestMap_step [] (combinedMatches q cs cfg)))))"
  unfolding findAllMatches_def Let_def by (rule slice0_take)

lemma findAllMatches_subset:
  "set (findAllMatches q cs cfg) \<subseteq>
     {m \<in> set (combinedMatches q cs cfg). confidence m \<ge> minConfidenceScore cfg}"
proof -
  obtain k where "findAllMatches q cs cfg =
     take k (sort_key (\<lambda>m. - confidence m)
       (filter (\<lambda>m. confidence m \<ge> minConfidenceScore cfg)
          (map snd (foldl bestMap_step [] (combinedMatches q cs cfg)))))"
    using findAllMatches_take by blast
  then have "set (findAllMatches q cs cfg) \<subseteq>
     set (filter (\<lambda>m. confidence m \<ge> minConfidenceScore cfg)
          (map snd (foldl bestMap_step [] (combinedMatches q cs cfg))))"
    using set_take_subset [of k] by (metis set_sort)
  then show ?thesis using bestMap_values(2) [of q cs cfg] by auto
qed

lemma distinct_map_sort_key: "distinct (map g (sort_key f xs)) = distinct (map g xs)"
  by (simp add: distinct_map)

lemma distinct_map_take: "distinct (map g xs) \<Longrightarrow> distinct (map g (take k xs))"
  by (simp add: take_map [symmetric] distinct_take)

lemma findAllMatches_distinct: "distinct (map candidate (findAllMatches q cs cfg))"
proof -
  obtain k where k: "findAllMatches q cs cfg =
     take k (sort_key (\<lambda>m. - confidence m)
       (filter (\<lambda>m. confidence m \<ge> minConfidenceScore cfg)
          (map snd (foldl bestMap_step [] (combinedMatches q cs cfg)))))"
    using findAllMatches_take by blast
  have "distinct (map candidate (map snd (foldl bestMap_step [] (combinedMatches q cs cfg))))"
    unfolding bestMap_values(1) by (rule distinct_new_Set)
  then have "distinct (map candidate (filter (\<lambda>m. confidence m \<ge> minConfidenceScore cfg)
          (map snd (foldl bestMap_step [] (combinedMatches q cs cfg)))))"
    by (rule distinct_map_filter)
  then show ?thesis
    unfolding k by (intro distinct_map_take) (simp only: distinct_map_sort_key)
qed

lemma validateConfig_Nil:
  assumes "validateConfig cfg = []"
  shows "0 \<le> minConfidenceScore cfg" "minConfidenceScore cfg \<le> 1" "0 < maxResultsPerCompany cfg"
  using assms by (auto simp: validateConfig_def between0and1_def split: if_splits)

text \<open>
  Claim C10. For every query, candidate list and valid configuration (one that
  \<^verbatim>\<open>validateConfig\<close> accepts), every match returned by \<^verbatim>\<open>findAllMatches\<close> has a
  confidence between 0 and 1 that is a multiple of 1/1000 and is at least
  \<open>minConfidenceScore\<close>, and a candidate different from the query; the candidates of the
  returned matches are pairwise distinct; and the list has at most
  \<open>maxResultsPerCompany\<close> entries.
\<close>

theorem findAllMatches_output_invariant:
  assumes "validateConfig cfg = []"
  shows "(\<forall>m \<in> set (findAllMatches q cs cfg).
            0 \<le> confidence m \<and> confidence m \<le> 1
          \<and> (\<exists>k. confidence m = of_int k / 1000)
          \<and> confidence m \<ge> minConfidenceScore cfg
          \<and> candidate m \<noteq> q)
       \<and> distinct (map candidate (findAllMatches q cs cfg))
       \<and> int (length (findAllMatches q cs cfg)) \<le> maxResultsPerCompany cfg"
proof (intro conjI ballI)
  fix m
  assume "m \<in> set (findAllMatches q cs cfg)"
  then have m: "m \<in> set (combinedMatches q cs cfg)" "confidence m \<ge> minConfidenceScore cfg"
    using findAllMatches_subset by auto
  from m(1) have lm: "layerMatch q cs m" by (rule combinedMatches_layer)
  show "0 \<le> confidence m" using m(2) validateConfig_Nil(1) [OF assms] by simp
  show "confidence m \<le> 1" using lm by (simp add: layerMatch_def)
  show "\<exists>k. confidence m = of_int k / 1000" using lm unfolding layerMatch_def by blast
  show "confidence m \<ge> minConfidenceScore cfg" by (rule m(2))
  show "candidate m \<noteq> q" using lm by (simp add: layerMatch_def)
next
  show "distinct (map candidate (findAllMatches q cs cfg))" by (rule findAllMatches_distinct)
next
  show "int (length (findAllMatches q cs cfg)) \<le> maxResultsPerCompany cfg"
    unfolding findAllMatches_def Let_def
    using validateConfig_Nil(3) [OF assms] by (intro length_slice0) simp
qed

theorem findAllMatches_output_invariant_witness:
  "validateConfig (CONFIG_PRESETS balanced) = []
   \<and> list_all (\<lambda>m. 0 \<le> confidence m \<and> confidence m \<le> 1
          \<and> (\<exists>k. confidence m = of_int k / 1000)
          \<and> confidence m \<ge> minConfidenceScore (CONFIG_PRESETS balanced)
          \<and> candidate m \<noteq> ''Ubisoft Montreal'')
        (findAllMatches ''Ubisoft Montreal'' [''Montreal Ubisoft'', ''Ubisoft Montreal Studio'']
           (CONFIG_PRESETS balanced))
   \<and> distinct (map candidate
        (findAllMatches ''Ubisoft Montreal'' [''Montreal Ubisoft'', ''Ubisoft Montreal Studio'']
           (CONFIG_PRESETS balanced)))
   \<and> int (length
        (findAllMatches ''Ubisoft Montreal'' [''Montreal Ubisoft'', ''Ubisoft Montreal Studio'']
           (CONFIG_PRESETS balanced))) \<le> maxResultsPerCompany (CONFIG_PRESETS balanced)
   \<and> length
        (findAllMatches ''Ubisoft Montreal'' [''Montreal Ubisoft'', ''Ubisoft Montreal Studio'']
           (CONFIG_PRESETS balanced)) = 2"
proof -
  have valid: "validateConfig (CONFIG_PRESETS balanced) = []"
    by (simp add: validateConfig_def between0and1_def)
  have two: "length
        (findAllMatches ''Ubisoft Montreal'' [''Montreal Ubisoft'', ''Ubisoft Montreal Studio'']
           (CONFIG_PRESETS balanced)) = 2"
    by code_simp
  show ?thesis
    using findAllMatches_output_invariant [OF valid, of "''Ubisoft Montreal''"
        "[''Montreal Ubisoft'', ''Ubisoft Montreal Studio'']"] valid two
    unfolding list_all_iff by blast
qed

subsection \<open>Reconciliation keeps the exact match\<close>

lemma findExactMatches_map_filter:
  "findExactMatches q cs cfg =
     map (\<lambda>c. makeMatch q c (normalizeCompanyName q cfg) (normalizeCompanyName c cfg) 1
                exact_after_normalization)
         (filter (\<lambda>c. c \<noteq> q \<and> normalizeCompanyName c cfg = normalizeCompanyName q cfg) cs)"
proof -
  have "findExactMatches q cs cfg =
     concat (map (\<lambda>c. if c \<noteq> q \<and> normalizeCompanyName c cfg = normalizeCompanyName q cfg
        then [makeMatch q c (normalizeCompanyName q cfg) (normalizeCompanyName c cfg) 1
                exact_after_normalization] else []) cs)"
    unfolding findExactMatches_def Let_def
    by (rule arg_cong [where f = concat], rule map_cong) auto
  then show ?thesis
    by (simp add: concat_map_if)
qed

lemma map_of_bestMap_step:
  "map_of (bestMap_step bm m) =
     (case map_of bm (candidate m) of
        None \<Rightarrow> (map_of bm)(candidate m \<mapsto> m)
      | Some e \<Rightarrow> if confidence m > confidence e then (map_of bm)(candidate m \<mapsto> m)
                  else map_of bm)"
  by (simp add: bestMap_step_def map_of_Map_set split: option.splits)

lemma bestMap_first_entry:
  assumes "map_of bm c = None \<or> map_of bm c = Some E"
    and "\<forall>m \<in> set ms. candidate m = c \<longrightarrow> m = E"
    and "candidate E = c"
  shows "map_of (foldl bestMap_step bm ms) c =
           (if E \<in> set ms \<or> map_of bm c = Some E then Some E else None)"
  using assms(1,2)
proof (induction ms arbitrary: bm)
  case Nil
  then show ?case by auto
next
  case (Cons m ms)
  have rest: "\<forall>m \<in> set ms. candidate m = c \<longrightarrow> m = E"
    using Cons.prems(2) by simp
  show ?case
  proof (cases "candidate m = c")
    case True
    then have mE: "m = E" using Cons.prems(2) by simp
    have step: "map_of (bestMap_step bm E) c = Some E"
      using Cons.prems(1) assms(3)
      by (auto simp: map_of_bestMap_step split: option.splits)
    have "map_of (foldl bestMap_step (bestMap_step bm E) ms) c =
       (if E \<in> set ms \<or> map_of (bestMap_step bm E) c = Some E then Some E else None)"
      by (rule Cons.IH [OF _ rest]) (simp add: step)
    then show ?thesis by (simp add: mE step)
  next
    case False
    then have mE: "m \<noteq> E" using assms(3) by auto
    have step: "map_of (bestMap_step bm m) c = map_of bm c"
      using False by (simp add: map_of_bestMap_step split: option.splits)
    have "map_of (foldl bestMap_step (bestMap_step bm m) ms) c =
       (if E \<in> set ms \<or> map_of (bestMap_step bm m) c = Some E then Some E else None)"
      by (rule Cons.IH [OF _ rest]) (simp add: step Cons.prems(1))
    then show ?thesis using mE by (simp add: step eq_commute [of E m])
  qed
qed

lemma bestMap_keeps_entry:
  assumes "map_of bm c = Some E"
    and "\<forall>m \<in> set ms. candidate m = c \<longrightarrow> confidence m \<le> confidence E"
  shows "map_of (foldl bestMap_step bm ms) c = Some E"
  using assms
proof (induction ms arbitrary: bm)
  case Nil
  then show ?case by simp
next
  case (Cons m ms)
  have "map_of (bestMap_step bm m) c = Some E"
    using Cons.prems by (auto simp: map_of_bestMap_step split: option.splits)
  then show ?case using Cons.IH Cons.prems(2) by simp
qed

lemma filter_key_singleton:
  "distinct (map f xs) \<Longrightarrow> x \<in> set xs \<Longrightarrow> filter (\<lambda>y. f y = f x) xs = [x]"
proof (induction xs)
  case Nil
  then show ?case by simp
next
  case (Cons a xs)
  show ?case
  proof (cases "a = x")
    case True
    have "f x \<notin> f ` set xs" using Cons.prems(1) True by simp
    then have "filter (\<lambda>y. f y = f x) xs = []"
      unfolding filter_empty_conv by (metis imageI)
    then show ?thesis using True by simp
  next
    case False
    then have "x \<in> set xs" using Cons.prems(2) by simp
    moreover from this have "f a \<noteq> f x" using Cons.prems(1) by auto
    ultimately show ?thesis using Cons.IH Cons.prems(1) by simp
  qed
qed

lemma length_bestMap_le:
  "length (foldl bestMap_step [] (combinedMatches q cs cfg)) \<le> length cs"
proof -
  let ?bm = "foldl bestMap_step [] (combinedMatches q cs cfg)"
  have "length ?bm = length (map candidate (map snd ?bm))" by simp
  also have "\<dots> = card (set (map candidate (combinedMatches q cs cfg)))"
    unfolding bestMap_values(1)
    by (simp add: distinct_card [OF distinct_new_Set, symmetric] set_new_Set del: set_map)
  also have "\<dots> \<le> card (set cs)"
  proof (rule card_mono)
    show "finite (set cs)" by simp
    show "set (map candidate (combinedMatches q cs cfg)) \<subseteq> set cs"
    proof
      fix x assume "x \<in> set (map candidate (combinedMatches q cs cfg))"
      then obtain m where "m \<in> set (combinedMatches q cs cfg)" "x = candidate m" by auto
      then show "x \<in> set cs"
        using combinedMatches_layer [of m q cs cfg] by (simp add: layerMatch_def)
    qed
  qed
  also have "\<dots> \<le> length cs" by (rule card_length)
  finally show ?thesis .
qed

lemma bestMap_exact_entry:
  assumes "c \<in> set cs" "c \<noteq> q" "normalizeCompanyName c cfg = normalizeCompanyName q cfg"
  shows "map_of (foldl bestMap_step [] (combinedMatches q cs cfg)) c =
           Some (makeMatch q c (normalizeCompanyName q cfg) (normalizeCompanyName c cfg) 1
                   exact_after_normalization)"
proof -
  let ?E = "makeMatch q c (normalizeCompanyName q cfg) (normalizeCompanyName c cfg) 1
              exact_after_normalization"
  let ?rest = "findHighSimilarityMatches q cs cfg @ findTokenMatches q cs cfg
                 @ findPartialMatches q cs cfg"
  have candE: "candidate ?E = c" and confE: "confidence ?E = 1"
    by (simp_all add: makeMatch_def toFixed3_1)
  have exact: "findExactMatches q cs cfg =
     map (\<lambda>c. makeMatch q c (normalizeCompanyName q cfg) (normalizeCompanyName c cfg) 1
                exact_after_normalization)
         (filter (\<lambda>c. c \<noteq> q \<and> normalizeCompanyName c cfg = normalizeCompanyName q cfg) cs)"
    by (rule findExactMatches_map_filter)
  have inE: "?E \<in> set (findExactMatches q cs cfg)"
    unfolding exact using assms by auto
  have onlyE: "\<forall>m \<in> set (findExactMatches q cs cfg). candidate m = c \<longrightarrow> m = ?E"
  proof (intro ballI impI)
    fix m assume "m \<in> set (findExactMatches q cs cfg)" and mc: "candidate m = c"
    then obtain c' where "m = makeMatch q c' (normalizeCompanyName q cfg)
        (normalizeCompanyName c' cfg) 1 exact_after_normalization"
      unfolding exact set_map by blast
    moreover from this mc have "c' = c" by (simp add: makeMatch_def)
    ultimately show "m = ?E" by simp
  qed
  have start: "map_of ([] :: (string \<times> CompanyMatch) list) c = None \<or> map_of [] c = Some ?E"
    by simp
  have "map_of (foldl bestMap_step [] (findExactMatches q cs cfg)) c =
     (if ?E \<in> set (findExactMatches q cs cfg) \<or> map_of [] c = Some ?E then Some ?E else None)"
    by (rule bestMap_first_entry [OF start onlyE candE])
  then have first: "map_of (foldl bestMap_step [] (findExactMatches q cs cfg)) c = Some ?E"
    using inE by presburger
  have "\<forall>m \<in> set ?rest. candidate m = c \<longrightarrow> confidence m \<le> confidence ?E"
  proof (intro ballI impI)
    fix m assume "m \<in> set ?rest"
    then have "layerMatch q cs m"
      using findHighSimilarityMatches_layer findTokenMatches_layer findPartialMatches_layer
      by auto
    then show "confidence m \<le> confidence ?E"
      unfolding confE by (simp add: layerMatch_def)
  qed
  from bestMap_keeps_entry [OF first this] show ?thesis
    unfolding combinedMatches_def foldl_append .
qed

lemma slice0_all: "int (length xs) \<le> n \<Longrightarrow> slice0 xs n = xs"
  by (simp add: slice0_def)

lemma findAllMatches_subset_bestMap:
  "set (findAllMatches q cs cfg) \<subseteq>
     set (map snd (foldl bestMap_step [] (combinedMatches q cs cfg)))"
proof -
  obtain k where "findAllMatches q cs cfg =
     take k (sort_key (\<lambda>m. - confidence m)
       (filter (\<lambda>m. confidence m \<ge> minConfidenceScore cfg)
          (map snd (foldl bestMap_step [] (combinedMatches q cs cfg)))))"
    using findAllMatches_take by blast
  then have "set (findAllMatches q cs cfg) \<subseteq>
     set (filter (\<lambda>m. confidence m \<ge> minConfidenceScore cfg)
          (map snd (foldl bestMap_step [] (combinedMatches q cs cfg))))"
    using set_take_subset [of k] by (metis set_sort)
  also have "\<dots> \<subseteq> set (map snd (foldl bestMap_step [] (combinedMatches q cs cfg)))"
    by (rule filter_is_subset)
  finally show ?thesis .
qed

lemma Set_add_cases: "Set_add acc z = acc \<or> Set_add acc z = acc @ [z]"
  by (simp add: Set_add_def)

lemma foldl_Set_add_prefix: "\<exists>r. foldl Set_add acc zs = acc @ r"
proof (induction zs arbitrary: acc)
  case Nil
  then show ?case by simp
next
  case (Cons z zs)
  obtain r where r: "foldl Set_add (Set_add acc z) zs = Set_add acc z @ r"
    using Cons.IH by blast
  from Set_add_cases [of acc z] show ?case
  proof
    assume "Set_add acc z = acc"
    then show ?thesis using r by simp
  next
    assume "Set_add acc z = acc @ [z]"
    then have "foldl Set_add acc (z # zs) = acc @ (z # r)" using r by simp
    then show ?thesis by blast
  qed
qed

lemma takeWhile_foldl_Set_add:
  "c \<notin> set acc \<Longrightarrow>
     takeWhile (\<lambda>x. x \<noteq> c) (foldl Set_add acc zs)
       = foldl Set_add acc (takeWhile (\<lambda>x. x \<noteq> c) zs)"
proof (induction zs arbitrary: acc)
  case Nil
  then have "\<forall>x \<in> set acc. x \<noteq> c" by blast
  then show ?case by simp
next
  case (Cons z zs)
  show ?case
  proof (cases "z = c")
    case True
    have add: "Set_add acc c = acc @ [c]" using Cons.prems by (simp add: Set_add_def)
    obtain r where r: "foldl Set_add (acc @ [c]) zs = (acc @ [c]) @ r"
      using foldl_Set_add_prefix by blast
    have "\<forall>x \<in> set acc. x \<noteq> c" using Cons.prems by blast
    then have "takeWhile (\<lambda>x. x \<noteq> c) (acc @ c # r) = acc"
      by (simp add: takeWhile_tail)
    then show ?thesis using True r add by simp
  next
    case False
    have "c \<notin> set (Set_add acc z)"
      using Set_add_cases [of acc z] False Cons.prems by auto
    from Cons.IH [OF this] show ?thesis using False by simp
  qed
qed

lemma takeWhile_new_Set:
  "takeWhile (\<lambda>x. x \<noteq> c) (new_Set zs) = new_Set (takeWhile (\<lambda>x. x \<noteq> c) zs)"
  unfolding new_Set_def by (rule takeWhile_foldl_Set_add) simp

lemma length_new_Set: "length (new_Set zs) = length (remdups zs)"
proof -
  have "length (new_Set zs) = card (set zs)"
    using distinct_card [OF distinct_new_Set, of zs] by (simp add: set_new_Set)
  then show ?thesis by (simp add: length_remdups_card_conv)
qed

lemma takeWhile_filter_until:
  "P c \<Longrightarrow> takeWhile (\<lambda>x. x \<noteq> c) (filter P cs) = filter P (takeWhile (\<lambda>x. x \<noteq> c) cs)"
  by (induction cs) auto

lemma sorted_min_key_first:
  "sorted (map f S) \<Longrightarrow> \<forall>y \<in> set S. k \<le> f y \<Longrightarrow>
     S = filter (\<lambda>y. f y = k) S @ filter (\<lambda>y. f y \<noteq> k) S"
proof (induction S)
  case Nil
  then show ?case by simp
next
  case (Cons y S)
  have IH: "S = filter (\<lambda>y. f y = k) S @ filter (\<lambda>y. f y \<noteq> k) S"
    using Cons by simp
  show ?case
  proof (cases "f y = k")
    case True
    then show ?thesis using IH by simp
  next
    case False
    then have "k < f y" using Cons.prems(2) by (simp add: less_le)
    then have "\<forall>z \<in> set S. f z \<noteq> k" using Cons.prems(1) by fastforce
    then have "filter (\<lambda>y. f y = k) S = []" and "filter (\<lambda>y. f y \<noteq> k) S = S"
      by (simp_all add: filter_empty_conv)
    then show ?thesis using False by simp
  qed
qed

lemma split_at_key:
  assumes "E \<in> set V" "distinct (map g V)" "g E = c"
  shows "\<exists>B. V = takeWhile (\<lambda>v. g v \<noteq> c) V @ E # B"
proof -
  let ?A = "takeWhile (\<lambda>v. g v \<noteq> c) V" and ?D = "dropWhile (\<lambda>v. g v \<noteq> c) V"
  have "?D \<noteq> []" using assms(1,3) by (auto simp: dropWhile_eq_Nil_conv)
  then obtain d B where D: "?D = d # B" by (cases ?D) auto
  then have "g d = c" using hd_dropWhile [of "\<lambda>v. g v \<noteq> c" V] by auto
  moreover have "d \<in> set V" using D set_dropWhileD [of d "\<lambda>v. g v \<noteq> c" V] by simp
  ultimately have "d = E"
    using assms by (auto simp: distinct_map dest: inj_onD)
  then show ?thesis using D takeWhile_dropWhile_id [of "\<lambda>v. g v \<noteq> c" V] by metis
qed

lemma in_take_filter:
  assumes "Q E" "length (filter Q A) < n"
  shows "E \<in> set (take n (filter Q (A @ E # B) @ R))"
proof -
  let ?xs = "filter Q (A @ E # B) @ R"
  have "?xs ! length (filter Q A) = E" using assms(1) by (simp add: nth_append)
  moreover have "length (filter Q A) < length ?xs" using assms(1) by simp
  ultimately show ?thesis using assms(2) by (metis in_set_conv_nth length_take min_less_iff_conj nth_take)
qed

lemma distinct_map_eq:
  "distinct (map g V) \<Longrightarrow> x \<in> set V \<Longrightarrow> y \<in> set V \<Longrightarrow> g x = g y \<Longrightarrow> x = y"
  by (auto simp: distinct_map dest: inj_onD)

lemma map_candidate_findExactMatches:
  "map candidate (findExactMatches q cs cfg) =
     filter (\<lambda>c. c \<noteq> q \<and> normalizeCompanyName c cfg = normalizeCompanyName q cfg) cs"
  unfolding findExactMatches_map_filter by (simp add: makeMatch_def comp_def)

lemma bestMap_keys_before:
  assumes "c \<in> set cs" "c \<noteq> q"
    and "normalizeCompanyName c cfg = normalizeCompanyName q cfg"
  shows "takeWhile (\<lambda>x. x \<noteq> c)
           (map candidate (map snd (foldl bestMap_step [] (combinedMatches q cs cfg))))
         = new_Set (filter (\<lambda>c. c \<noteq> q \<and> normalizeCompanyName c cfg = normalizeCompanyName q cfg)
                      (takeWhile (\<lambda>x. x \<noteq> c) cs))"
proof -
  let ?P = "\<lambda>c. c \<noteq> q \<and> normalizeCompanyName c cfg = normalizeCompanyName q cfg"
  obtain rest where comb: "map candidate (combinedMatches q cs cfg) = filter ?P cs @ rest"
    unfolding combinedMatches_def by (simp add: map_candidate_findExactMatches)
  have c: "c \<in> set (filter ?P cs)" using assms by simp
  have "takeWhile (\<lambda>x. x \<noteq> c) (filter ?P cs @ rest) = takeWhile (\<lambda>x. x \<noteq> c) (filter ?P cs)"
    by (rule takeWhile_append1 [OF c]) simp
  also have "\<dots> = filter ?P (takeWhile (\<lambda>x. x \<noteq> c) cs)"
    by (rule takeWhile_filter_until) (use assms in simp)
  finally show ?thesis
    unfolding bestMap_values(1) comb takeWhile_new_Set by simp
qed

lemma bestMap_exact_value:
  assumes "c \<in> set cs" "c \<noteq> q"
    and "normalizeCompanyName c cfg = normalizeCompanyName q cfg"
    and "v \<in> set (map snd (foldl bestMap_step [] (combinedMatches q cs cfg)))"
    and "candidate v = c"
  shows "v = makeMatch q c (normalizeCompanyName q cfg) (normalizeCompanyName c cfg) 1
               exact_after_normalization"
proof -
  let ?E = "makeMatch q c (normalizeCompanyName q cfg) (normalizeCompanyName c cfg) 1
              exact_after_normalization"
  let ?V = "map snd (foldl bestMap_step [] (combinedMatches q cs cfg))"
  have "map_of (foldl bestMap_step [] (combinedMatches q cs cfg)) c = Some ?E"
    by (rule bestMap_exact_entry [OF assms(1-3)])
  then have "(c, ?E) \<in> set (foldl bestMap_step [] (combinedMatches q cs cfg))"
    by (rule map_of_SomeD)
  then have EV: "?E \<in> set ?V" by force
  have d: "distinct (map candidate ?V)"
    unfolding bestMap_values(1) by (rule distinct_new_Set)
  have "candidate v = candidate ?E" using assms(5) by (simp add: makeMatch_def)
  from distinct_map_eq [OF d assms(4) EV this] show ?thesis .
qed

lemma exact_match_position:
  assumes c: "c \<in> set cs" "c \<noteq> q"
      "normalizeCompanyName c cfg = normalizeCompanyName q cfg"
    and le: "minConfidenceScore cfg \<le> 1"
  defines "E \<equiv> makeMatch q c (normalizeCompanyName q cfg) (normalizeCompanyName c cfg) 1
                   exact_after_normalization"
  defines "p \<equiv> length (remdups (filter
      (\<lambda>c. c \<noteq> q \<and> normalizeCompanyName c cfg = normalizeCompanyName q cfg)
      (takeWhile (\<lambda>x. x \<noteq> c) cs)))"
  shows "\<exists>A B. length A = p \<and> (\<forall>m \<in> set A. candidate m \<noteq> c)
           \<and> sort_key (\<lambda>m. - confidence m)
                (filter (\<lambda>m. confidence m \<ge> minConfidenceScore cfg)
                   (map snd (foldl bestMap_step [] (combinedMatches q cs cfg))))
               = A @ E # B"
proof -
  let ?P = "\<lambda>c. c \<noteq> q \<and> normalizeCompanyName c cfg = normalizeCompanyName q cfg"
  define V where "V = map snd (foldl bestMap_step [] (combinedMatches q cs cfg))"
  define A where "A = takeWhile (\<lambda>v. candidate v \<noteq> c) V"
  define Q :: "CompanyMatch \<Rightarrow> bool"
    where "Q = (\<lambda>m. minConfidenceScore cfg \<le> confidence m \<and> - confidence m = - 1)"
  define S where "S = sort_key (\<lambda>m. - confidence m)
                        (filter (\<lambda>m. confidence m \<ge> minConfidenceScore cfg) V)"
  have candE: "candidate E = c" and confE: "confidence E = 1"
    by (simp_all add: E_def makeMatch_def toFixed3_1)
  have "map_of (foldl bestMap_step [] (combinedMatches q cs cfg)) c = Some E"
    unfolding E_def by (rule bestMap_exact_entry [OF c])
  then have "(c, E) \<in> set (foldl bestMap_step [] (combinedMatches q cs cfg))"
    by (rule map_of_SomeD)
  then have EV: "E \<in> set V" unfolding V_def by force
  have dV: "distinct (map candidate V)"
    unfolding V_def bestMap_values(1) by (rule distinct_new_Set)
  obtain B where V: "V = A @ E # B"
    unfolding A_def using split_at_key [OF EV dV candE] by blast
  have keys: "map candidate A = new_Set (filter ?P (takeWhile (\<lambda>x. x \<noteq> c) cs))"
    unfolding A_def V_def using bestMap_keys_before [OF c] by (simp add: takeWhile_map comp_def)
  have lenA: "length A = p"
    using arg_cong [OF keys, of length] by (simp add: length_new_Set p_def)
  have notc: "\<forall>m \<in> set A. candidate m \<noteq> c"
    unfolding A_def using set_takeWhileD by fastforce
  have QA: "Q m" if "m \<in> set A" for m
  proof -
    have "candidate m \<in> set (map candidate A)" using that by simp
    then have "candidate m \<in> set (filter ?P (takeWhile (\<lambda>x. x \<noteq> c) cs))"
      unfolding keys set_new_Set .
    then have c': "candidate m \<in> set cs" "candidate m \<noteq> q"
        "normalizeCompanyName (candidate m) cfg = normalizeCompanyName q cfg"
      using set_takeWhileD by fastforce+
    have "m \<in> set V" using that V by simp
    then have "m = makeMatch q (candidate m) (normalizeCompanyName q cfg)
        (normalizeCompanyName (candidate m) cfg) 1 exact_after_normalization"
      unfolding V_def by (intro bestMap_exact_value [OF c']) simp_all
    then have "confidence m = 1" by (metis CompanyMatch.select_convs(3) makeMatch_def toFixed3_1)
    then show ?thesis using le by (simp add: Q_def)
  qed
  have QE: "Q E" using le confE by (simp add: Q_def)
  have "\<forall>y \<in> set V. confidence y \<le> 1"
    unfolding V_def using bestMap_values(2) [of q cs cfg] combinedMatches_layer [of _ q cs cfg]
    by (auto simp: layerMatch_def)
  then have low: "\<forall>y \<in> set S. - 1 \<le> - confidence y"
    unfolding S_def by simp
  have "sorted (map (\<lambda>m. - confidence m) S)"
    unfolding S_def by (rule sorted_sort_key)
  from sorted_min_key_first [OF this low]
  have S: "S = filter (\<lambda>y. - confidence y = - 1) S @ filter (\<lambda>y. - confidence y \<noteq> - 1) S" .
  have "filter (\<lambda>y. - confidence y = - 1) S
          = filter (\<lambda>y. - confidence y = - 1) (filter (\<lambda>m. confidence m \<ge> minConfidenceScore cfg) V)"
    unfolding S_def by (rule sort_key_stable)
  also have "\<dots> = filter Q V"
    by (simp add: Q_def)
  also have "\<dots> = filter Q A @ E # filter Q B"
    unfolding V using QE by simp
  also have "filter Q A = A"
    by (rule filter_True) (use QA in blast)
  finally have "S = A @ E # (filter Q B @ filter (\<lambda>y. - confidence y \<noteq> - 1) S)"
    using S by simp
  then show ?thesis
    using lenA notc unfolding S_def V_def by blast
qed

text \<open>
  Claim C5. Let \<open>c\<close> be a candidate of the pool that differs from the query \<open>q\<close> as a
  raw string and has the same normalized form. Then every match \<^verbatim>\<open>findAllMatches\<close>
  returns for \<open>c\<close> is the exact one, with confidence 1 and method
  \<^verbatim>\<open>exact_after_normalization\<close>: no other layer's result survives for \<open>c\<close>. The limit is
  large enough to retain the pair exactly when it exceeds the number of distinct names
  before the first occurrence of \<open>c\<close> in the pool that differ from \<open>q\<close> and normalize like
  it: when \<open>minConfidenceScore\<close> is at most 1 and \<open>maxResultsPerCompany\<close> exceeds that
  number, the exact match for \<open>c\<close> is returned, exactly once, whatever the size of the
  pool; and when \<open>maxResultsPerCompany\<close> is between 0 and that number, no match for \<open>c\<close>
  is returned.
\<close>

theorem exact_match_survives_reconciliation:
  assumes "c \<in> set cs" "c \<noteq> q"
    and "normalizeCompanyName c cfg = normalizeCompanyName q cfg"
  shows "(\<forall>m \<in> set (findAllMatches q cs cfg). candidate m = c \<longrightarrow>
            m = makeMatch q c (normalizeCompanyName q cfg) (normalizeCompanyName c cfg) 1
                  exact_after_normalization)
       \<and> (minConfidenceScore cfg \<le> 1
          \<and> int (length (remdups (filter
                (\<lambda>c'. c' \<noteq> q \<and> normalizeCompanyName c' cfg = normalizeCompanyName q cfg)
                (takeWhile (\<lambda>x. x \<noteq> c) cs)))) < maxResultsPerCompany cfg \<longrightarrow>
            filter (\<lambda>m. candidate m = c) (findAllMatches q cs cfg) =
              [makeMatch q c (normalizeCompanyName q cfg) (normalizeCompanyName c cfg) 1
                 exact_after_normalization])
       \<and> (minConfidenceScore cfg \<le> 1 \<and> 0 \<le> maxResultsPerCompany cfg
          \<and> maxResultsPerCompany cfg \<le> int (length (remdups (filter
                (\<lambda>c'. c' \<noteq> q \<and> normalizeCompanyName c' cfg = normalizeCompanyName q cfg)
                (takeWhile (\<lambda>x. x \<noteq> c) cs)))) \<longrightarrow>
            filter (\<lambda>m. candidate m = c) (findAllMatches q cs cfg) = [])
       \<and> confidence (makeMatch q c (normalizeCompanyName q cfg) (normalizeCompanyName c cfg) 1
                 exact_after_normalization) = 1
       \<and> matchMethod (makeMatch q c (normalizeCompanyName q cfg) (normalizeCompanyName c cfg) 1
                 exact_after_normalization) = exact_after_normalization"
proof -
  define E where "E = makeMatch q c (normalizeCompanyName q cfg) (normalizeCompanyName c cfg) 1
                        exact_after_normalization"
  define p where "p = length (remdups (filter
      (\<lambda>c'. c' \<noteq> q \<and> normalizeCompanyName c' cfg = normalizeCompanyName q cfg)
      (takeWhile (\<lambda>x. x \<noteq> c) cs)))"
  define S where "S = sort_key (\<lambda>m. - confidence m)
                (filter (\<lambda>m. confidence m \<ge> minConfidenceScore cfg)
                   (map snd (foldl bestMap_step [] (combinedMatches q cs cfg))))"
  have candE: "candidate E = c" and confE: "confidence E = 1"
    and methE: "matchMethod E = exact_after_normalization"
    by (simp_all add: E_def makeMatch_def toFixed3_1)
  have only: "\<forall>m \<in> set (findAllMatches q cs cfg). candidate m = c \<longrightarrow> m = E"
  proof (intro ballI impI)
    fix m assume "m \<in> set (findAllMatches q cs cfg)" and mc: "candidate m = c"
    then have "m \<in> set (map snd (foldl bestMap_step [] (combinedMatches q cs cfg)))"
      using findAllMatches_subset_bestMap by blast
    from bestMap_exact_value [OF assms this mc] show "m = E" unfolding E_def .
  qed
  have R: "findAllMatches q cs cfg = take (nat (maxResultsPerCompany cfg)) S"
    if "0 \<le> maxResultsPerCompany cfg"
    using that by (simp add: findAllMatches_def Let_def S_def slice0_def)
  have pos: "\<exists>A B. length A = p \<and> (\<forall>m \<in> set A. candidate m \<noteq> c) \<and> S = A @ E # B"
    if "minConfidenceScore cfg \<le> 1"
    unfolding p_def S_def E_def by (rule exact_match_position [OF assms that])
  have kept: "filter (\<lambda>m. candidate m = c) (findAllMatches q cs cfg) = [E]"
    if le: "minConfidenceScore cfg \<le> 1" and big: "int p < maxResultsPerCompany cfg"
  proof -
    obtain A B where AB: "length A = p" "S = A @ E # B" using pos [OF le] by blast
    have "length A < nat (maxResultsPerCompany cfg)" using big AB(1) by linarith
    then have "E \<in> set (take (nat (maxResultsPerCompany cfg)) (A @ E # B))"
      by (simp add: take_Cons')
    moreover have "0 \<le> maxResultsPerCompany cfg" using big by linarith
    ultimately have "E \<in> set (findAllMatches q cs cfg)"
      using R AB(2) by simp
    from filter_key_singleton [OF findAllMatches_distinct this] show ?thesis
      by (simp add: candE)
  qed
  have dropped: "filter (\<lambda>m. candidate m = c) (findAllMatches q cs cfg) = []"
    if le: "minConfidenceScore cfg \<le> 1" and nonneg: "0 \<le> maxResultsPerCompany cfg"
      and small: "maxResultsPerCompany cfg \<le> int p"
  proof -
    obtain A B where AB: "length A = p" "\<forall>m \<in> set A. candidate m \<noteq> c" "S = A @ E # B"
      using pos [OF le] by blast
    have "nat (maxResultsPerCompany cfg) \<le> length A" using small AB(1) by linarith
    then have "take (nat (maxResultsPerCompany cfg)) S = take (nat (maxResultsPerCompany cfg)) A"
      unfolding AB(3) by simp
    then have "set (findAllMatches q cs cfg) \<subseteq> set A"
      using R [OF nonneg] set_take_subset [of "nat (maxResultsPerCompany cfg)" A] by simp
    then show ?thesis using AB(2) by (auto simp: filter_empty_conv)
  qed
  show ?thesis
    using only kept dropped confE methE unfolding E_def p_def by blast
qed

theorem exact_match_survives_reconciliation_witness:
  "''Ubisoft Montreal Studio'' \<in> set [''Montreal Ubisoft'', ''Ubisoft Montreal Studio'', ''Bolt Technology'']
   \<and> ''Ubisoft Montreal Studio'' \<noteq> ''Ubisoft Montreal''
   \<and> normalizeCompanyName ''Ubisoft Montreal Studio''
         ((CONFIG_PRESETS balanced)\<lparr>maxResultsPerCompany := 1\<rparr>) =
       normalizeCompanyName ''Ubisoft Montreal''
         ((CONFIG_PRESETS balanced)\<lparr>maxResultsPerCompany := 1\<rparr>)
   \<and> minConfidenceScore ((CONFIG_PRESETS balanced)\<lparr>maxResultsPerCompany := 1\<rparr>) \<le> 1
   \<and> int (length (remdups (filter
         (\<lambda>c'. c' \<noteq> ''Ubisoft Montreal''
            \<and> normalizeCompanyName c' ((CONFIG_PRESETS balanced)\<lparr>maxResultsPerCompany := 1\<rparr>) =
              normalizeCompanyName ''Ubisoft Montreal''
                ((CONFIG_PRESETS balanced)\<lparr>maxResultsPerCompany := 1\<rparr>))
         (takeWhile (\<lambda>x. x \<noteq> ''Ubisoft Montreal Studio'')
            [''Montreal Ubisoft'', ''Ubisoft Montreal Studio'', ''Bolt Technology'']))))
       < maxResultsPerCompany ((CONFIG_PRESETS balanced)\<lparr>maxResultsPerCompany := 1\<rparr>)
   \<and> int (length [''Montreal Ubisoft'', ''Ubisoft Montreal Studio'', ''Bolt Technology''])
       > maxResultsPerCompany ((CONFIG_PRESETS balanced)\<lparr>maxResultsPerCompany := 1\<rparr>)
   \<and> filter (\<lambda>m. candidate m = ''Ubisoft Montreal Studio'')
        (findAllMatches ''Ubisoft Montreal''
           [''Montreal Ubisoft'', ''Ubisoft Montreal Studio'', ''Bolt Technology'']
           ((CONFIG_PRESETS balanced)\<lparr>maxResultsPerCompany := 1\<rparr>)) =
       [\<lparr> original = ''Ubisoft Montreal'', candidate = ''Ubisoft Montreal Studio'',
          confidence = 1, matchMethod = exact_after_normalization,
          normalizedOriginal = ''ubisoft montreal'',
          normalizedCandidate = ''ubisoft montreal'' \<rparr>]"
proof -
  define cfg where "cfg = (CONFIG_PRESETS balanced)\<lparr>maxResultsPerCompany := 1\<rparr>"
  have n1: "normalizeCompanyName ''Ubisoft Montreal Studio'' cfg = ''ubisoft montreal''"
    unfolding cfg_def by code_simp
  have n2: "normalizeCompanyName ''Ubisoft Montreal'' cfg = ''ubisoft montreal''"
    unfolding cfg_def by code_simp
  have h1: "''Ubisoft Montreal Studio''
      \<in> set [''Montreal Ubisoft'', ''Ubisoft Montreal Studio'', ''Bolt Technology'']"
    by simp
  have h2: "''Ubisoft Montreal Studio'' \<noteq> ''Ubisoft Montreal''"
    by simp
  have h3: "normalizeCompanyName ''Ubisoft Montreal Studio'' cfg =
       normalizeCompanyName ''Ubisoft Montreal'' cfg"
    by (simp only: n1 n2)
  have h4: "minConfidenceScore cfg \<le> 1"
    unfolding cfg_def by simp
  have h5: "int (length (remdups (filter
         (\<lambda>c'. c' \<noteq> ''Ubisoft Montreal''
            \<and> normalizeCompanyName c' cfg = normalizeCompanyName ''Ubisoft Montreal'' cfg)
         (takeWhile (\<lambda>x. x \<noteq> ''Ubisoft Montreal Studio'')
            [''Montreal Ubisoft'', ''Ubisoft Montreal Studio'', ''Bolt Technology'']))))
       < maxResultsPerCompany cfg"
    unfolding cfg_def by code_simp
  have h6: "int (length [''Montreal Ubisoft'', ''Ubisoft Montreal Studio'', ''Bolt Technology''])
       > maxResultsPerCompany cfg"
    unfolding cfg_def by simp
  have mk: "makeMatch ''Ubisoft Montreal'' ''Ubisoft Montreal Studio''
        (normalizeCompanyName ''Ubisoft Montreal'' cfg)
        (normalizeCompanyName ''Ubisoft Montreal Studio'' cfg) 1
        exact_after_normalization =
       \<lparr> original = ''Ubisoft Montreal'', candidate = ''Ubisoft Montreal Studio'',
          confidence = 1, matchMethod = exact_after_normalization,
          normalizedOriginal = ''ubisoft montreal'',
          normalizedCandidate = ''ubisoft montreal'' \<rparr>"
    by (simp only: n1 n2 makeMatch_def toFixed3_1)
  have kept: "filter (\<lambda>m. candidate m = ''Ubisoft Montreal Studio'')
        (findAllMatches ''Ubisoft Montreal''
           [''Montreal Ubisoft'', ''Ubisoft Montreal Studio'', ''Bolt Technology''] cfg) =
       [makeMatch ''Ubisoft Montreal'' ''Ubisoft Montreal Studio''
        (normalizeCompanyName ''Ubisoft Montreal'' cfg)
        (normalizeCompanyName ''Ubisoft Montreal Studio'' cfg) 1
        exact_after_normalization]"
    using exact_match_survives_reconciliation [OF h1 h2 h3] h4 h5 by blast
  show ?thesis
    unfolding cfg_def [symmetric]
    by (intro conjI h1 h2 h3 h4 h5 h6 kept [unfolded mk])
qed

subsection \<open>Ranking\<close>








subsection \<open>Clustering\<close>

lemma claimInvariant_step:
  assumes inv: "claimInvariant processed groups"
    and new: "company \<notin> set processed"
    and d: "distinct (map candidate matches)"
  shows "claimInvariant
           (foldl Set_add (Set_add processed company) (map candidate matches))
           (groups @ [\<lparr> groupOriginal = company, duplicates = matches,
                         totalMatches = length matches \<rparr>])"
proof -
  let ?p = "foldl Set_add (Set_add processed company) (map candidate matches)"
  have p: "set ?p = set processed \<union> {company} \<union> candidate ` set matches"
    by (auto simp: set_foldl_Set_add Set_add_def)
  have a: "groupOriginal ` set groups \<subseteq> set processed"
    and b: "\<forall>g \<in> set groups. candidate ` set (duplicates g) \<subseteq> set processed"
    and c: "distinct (map groupOriginal groups)"
    and dd: "list_all (\<lambda>g. distinct (map candidate (duplicates g))) groups"
    and e: "sorted_wrt (\<lambda>g h. groupOriginal h \<notin> candidate ` set (duplicates g)) groups"
    using inv unfolding claimInvariant_def by blast+
  have c': "company \<notin> groupOriginal ` set groups" using a new by blast
  have e': "\<forall>g \<in> set groups. company \<notin> candidate ` set (duplicates g)" using b new by blast
  show ?thesis
    unfolding claimInvariant_def p
    using a b c dd e c' e' d by (auto simp: sorted_wrt_append)
qed

lemma findDuplicates_loop_invariant:
  "claimInvariant processed groups \<Longrightarrow>
     \<exists>processed'. claimInvariant processed'
        (findDuplicates_loop cfg uniqueCompanies rest processed groups)"
proof (induction rest arbitrary: processed groups)
  case Nil
  then show ?case by auto
next
  case (Cons company rest)
  show ?case
  proof (cases "company \<in> set processed
                 \<or> length (findAllMatches company uniqueCompanies cfg) = 0")
    case True
    then have "findDuplicates_loop cfg uniqueCompanies (company # rest) processed groups
             = findDuplicates_loop cfg uniqueCompanies rest processed groups"
      by (auto simp: Let_def)
    then show ?thesis using Cons.IH [OF Cons.prems] by simp
  next
    case False
    let ?m = "findAllMatches company uniqueCompanies cfg"
    have eq: "findDuplicates_loop cfg uniqueCompanies (company # rest) processed groups
             = findDuplicates_loop cfg uniqueCompanies rest
                 (foldl Set_add (Set_add processed company) (map candidate ?m))
                 (groups @ [\<lparr> groupOriginal = company, duplicates = ?m,
                              totalMatches = length ?m \<rparr>])"
      using False by (simp add: Let_def)
    have "claimInvariant (foldl Set_add (Set_add processed company) (map candidate ?m))
            (groups @ [\<lparr> groupOriginal = company, duplicates = ?m, totalMatches = length ?m \<rparr>])"
      by (rule claimInvariant_step [OF Cons.prems _ findAllMatches_distinct]) (use False in simp)
    from Cons.IH [OF this] show ?thesis unfolding eq .
  qed
qed

text \<open>
  Claim C2, as amended. In every result of \<^verbatim>\<open>findDuplicates\<close> each raw name is the
  representative of at most one group; within one group each raw name is a match target
  at most once; and a name that is a match target of a group is never the representative
  of a later group. A name can be a match target of several groups.
\<close>

theorem findDuplicates_claims:
  "distinct (map groupOriginal (duplicateGroups (findDuplicates this companies)))
   \<and> list_all (\<lambda>g. distinct (map candidate (duplicates g)))
        (duplicateGroups (findDuplicates this companies))
   \<and> sorted_wrt (\<lambda>g h. groupOriginal h \<notin> candidate ` set (duplicates g))
        (duplicateGroups (findDuplicates this companies))"
proof -
  let ?u = "new_Set (filter (\<lambda>c. c \<noteq> []) (map trim companies))"
  have "claimInvariant [] []" by (simp add: claimInvariant_def)
  then obtain p where "claimInvariant p (findDuplicates_loop (config this) ?u ?u [] [])"
    using findDuplicates_loop_invariant by blast
  then show ?thesis
    by (simp add: findDuplicates_def Let_def claimInvariant_def)
qed

text \<open>
  The claim as stated fails: the matcher is run against the whole list, claimed names
  included, so a claimed name can be matched again. Under the balanced preset
  \<^verbatim>\<open>"Blue Harbour"\<close> is the match target of the group of \<^verbatim>\<open>"Blue Harbor"\<close> and of the
  group of \<^verbatim>\<open>"Blue Harbours"\<close>, two names that do not match each other.
\<close>

theorem findDuplicates_shared_target_counterexample:
  "new_CompanyDeduplicator (CONFIG_PRESETS balanced) = Inr \<lparr> config = CONFIG_PRESETS balanced \<rparr>
   \<and> map (\<lambda>g. (groupOriginal g, map candidate (duplicates g)))
       (duplicateGroups (findDuplicates \<lparr> config = CONFIG_PRESETS balanced \<rparr>
          [''Blue Harbor'', ''Blue Harbour'', ''Blue Harbours'']))
     = [(''Blue Harbor'', [''Blue Harbour'']), (''Blue Harbours'', [''Blue Harbour''])]"
  by code_simp

subsection \<open>Normalization\<close>

lemma removeAccents_unit_low: "(of_char c :: nat) < 192 \<Longrightarrow> removeAccents_unit c = c"
  by (simp add: removeAccents_unit_def Let_def)

lemma lowWord_range: "lowWord c \<Longrightarrow> 48 \<le> (of_char c :: nat) \<and> (of_char c :: nat) \<le> 122
   \<and> \<not> (65 \<le> (of_char c :: nat) \<and> (of_char c :: nat) \<le> 90)"
  unfolding lowWord_def Let_def by linarith

lemma lowWord_toLowerCase_unit: "lowWord c \<Longrightarrow> toLowerCase_unit c = c"
proof -
  assume "lowWord c"
  then have "\<not> ((65 \<le> (of_char c :: nat) \<and> (of_char c :: nat) \<le> 90)
     \<or> (192 \<le> (of_char c :: nat) \<and> (of_char c :: nat) \<le> 222 \<and> (of_char c :: nat) \<noteq> 215))"
    unfolding lowWord_def Let_def by linarith
  then show ?thesis
    unfolding toLowerCase_unit_def Let_def by (rule if_not_P)
qed

lemma lowWord_removeAccents_unit: "lowWord c \<Longrightarrow> removeAccents_unit c = c"
  using lowWord_range [of c] by (intro removeAccents_unit_low) simp

lemma lowWord_isWord: "lowWord c \<Longrightarrow> isWord c"
  unfolding lowWord_def isWord_def Let_def by linarith

lemma lowWord_not_isSpace: "lowWord c \<Longrightarrow> \<not> isSpace c"
  using lowWord_range [of c] unfolding isSpace_def Let_def by linarith

lemma of_char_space: "(of_char CHR '' '' :: nat) = 32"
  by simp

lemma space_facts:
  "toLowerCase_unit CHR '' '' = CHR '' ''" "removeAccents_unit CHR '' '' = CHR '' ''"
  "isSpace CHR '' ''" "\<not> isDigit CHR '' ''" "\<not> isWord CHR '' ''" "\<not> lowWord CHR '' ''"
  unfolding toLowerCase_unit_def removeAccents_unit_def isSpace_def isDigit_def
      isWord_def lowWord_def Let_def of_char_space by simp_all

lemma notUpper_toLowerCase_unit: "notUpper (toLowerCase_unit c)"
proof (cases "(65 \<le> (of_char c :: nat) \<and> (of_char c :: nat) \<le> 90)
     \<or> (192 \<le> (of_char c :: nat) \<and> (of_char c :: nat) \<le> 222 \<and> (of_char c :: nat) \<noteq> 215)")
  case True
  then have eq: "toLowerCase_unit c = char_of ((of_char c :: nat) + 32)"
    unfolding toLowerCase_unit_def Let_def by (rule if_P)
  have "(of_char c :: nat) + 32 < 256" using True by linarith
  then have "(of_char (char_of ((of_char c :: nat) + 32)) :: nat) = of_char c + 32"
    by (simp add: of_char_of)
  then show ?thesis
    unfolding eq notUpper_def Let_def using True by linarith
next
  case False
  then have eq: "toLowerCase_unit c = c"
    unfolding toLowerCase_unit_def Let_def by (rule if_not_P)
  show ?thesis
    unfolding eq notUpper_def Let_def using False by linarith
qed

lemma removeAccents_unit_cases:
  "removeAccents_unit c = c \<or> (192 \<le> (of_char c :: nat) \<and> (of_char c :: nat) \<le> 221)
   \<or> removeAccents_unit c \<in> set ''aceinouy''"
  unfolding removeAccents_unit_def Let_def by simp

lemma notUpper_removeAccents_unit:
  assumes "notUpper c"
  shows "\<not> asciiUpper (removeAccents_unit c)"
proof -
  consider "removeAccents_unit c = c" | "192 \<le> (of_char c :: nat) \<and> (of_char c :: nat) \<le> 221"
    | "removeAccents_unit c \<in> set ''aceinouy''"
    using removeAccents_unit_cases by blast
  then show ?thesis
  proof cases
    case 1
    then show ?thesis using assms by (simp add: notUpper_def asciiUpper_def Let_def)
  next
    case 2
    then have "(of_char c :: nat) = 215" using assms unfolding notUpper_def Let_def by linarith
    then have "removeAccents_unit c = c" by (simp add: removeAccents_unit_def Let_def)
    then show ?thesis using assms by (simp add: notUpper_def asciiUpper_def Let_def)
  next
    case 3
    then show ?thesis by (auto simp: asciiUpper_def Let_def)
  qed
qed

lemma notUpper_not_asciiUpper: "notUpper c \<Longrightarrow> \<not> asciiUpper c"
  by (simp add: notUpper_def asciiUpper_def Let_def)

lemma isWord_lowWord: "isWord c \<Longrightarrow> \<not> asciiUpper c \<Longrightarrow> lowWord c"
  unfolding isWord_def asciiUpper_def lowWord_def Let_def by linarith

lemma trimEnd_Nil: "trimEnd [] = []"
  by (simp add: trimEnd_def)

lemma trimEnd_eq_Nil: "trimEnd s = [] \<longleftrightarrow> (\<forall>c \<in> set s. isSpace c)"
  by (simp add: trimEnd_def dropWhile_eq_Nil_conv)

lemma trimEnd_Cons:
  "trimEnd (c # s) = (if isSpace c \<and> trimEnd s = [] then [] else c # trimEnd s)"
proof (cases "\<forall>x \<in> set s. isSpace x")
  case True
  then have "dropWhile isSpace (rev s @ [c]) = dropWhile isSpace [c]"
    by (intro dropWhile_append2) simp
  moreover have "trimEnd s = []" using True by (simp add: trimEnd_eq_Nil)
  ultimately show ?thesis by (simp add: trimEnd_def)
next
  case False
  then obtain x where "x \<in> set (rev s)" "\<not> isSpace x" by auto
  then have "dropWhile isSpace (rev s @ [c]) = dropWhile isSpace (rev s) @ [c]"
    by (rule dropWhile_append1)
  moreover have "trimEnd s \<noteq> []" using False by (simp add: trimEnd_eq_Nil)
  ultimately show ?thesis by (simp add: trimEnd_def)
qed

lemma trim_trimEnd: "trim s = trimEnd (dropWhile isSpace s)"
  by (simp add: trim_def trimEnd_def)

lemma replace_spaces_True_hd:
  "replace_spaces True s = [] \<or> \<not> isSpace (hd (replace_spaces True s))"
  by (induction s) auto

lemma dropWhile_replace_spaces:
  "dropWhile isSpace (replace_spaces False u) = replace_spaces True u"
proof (cases u)
  case Nil
  then show ?thesis by simp
next
  case (Cons c cs)
  show ?thesis
  proof (cases "isSpace c")
    case True
    have "dropWhile isSpace (replace_spaces True cs) = replace_spaces True cs"
      using replace_spaces_True_hd [of cs] by (cases "replace_spaces True cs") auto
    then show ?thesis using True Cons by (simp add: space_facts)
  next
    case False
    then show ?thesis using Cons by simp
  qed
qed

lemma trim_replace_spaces: "trim (replace_spaces False u) = trimEnd (replace_spaces True u)"
  by (simp add: trim_trimEnd dropWhile_replace_spaces)

lemma join_Cons: "join sep (w # ws) = w @ (if ws = [] then [] else sep @ join sep ws)"
  by (cases ws) simp_all

lemma okChar_not_isSpace: "okChar cfg c \<Longrightarrow> \<not> isSpace c"
  by (simp add: okChar_def lowWord_not_isSpace)

lemma wordList_Nil: "wordList cfg []"
  by (simp add: wordList_def)

lemma wordList_join_eq_Nil: "wordList cfg ws \<Longrightarrow> join sep ws = [] \<longleftrightarrow> ws = []"
  by (cases ws) (auto simp: wordList_def join_Cons)

lemma words_of_replace_spaces:
  assumes "\<forall>c \<in> set u. okChar cfg c \<or> isSpace c"
  shows "(\<exists>ws. wordList cfg ws \<and> trimEnd (replace_spaces True u) = join '' '' ws)
       \<and> (\<exists>w ws. (\<forall>c \<in> set w. okChar cfg c) \<and> wordList cfg ws
              \<and> trimEnd (replace_spaces False u) = join '' '' (w # ws))"
  using assms
proof (induction u)
  case Nil
  have "wordList cfg [] \<and> trimEnd (replace_spaces True []) = join '' '' []"
    by (simp add: wordList_Nil trimEnd_Nil)
  moreover have "(\<forall>c \<in> set ([] :: string). okChar cfg c) \<and> wordList cfg []
      \<and> trimEnd (replace_spaces False []) = join '' '' ([] # [])"
    by (simp add: wordList_Nil trimEnd_Nil)
  ultimately show ?case by blast
next
  case (Cons c cs)
  then have IH: "(\<exists>ws. wordList cfg ws \<and> trimEnd (replace_spaces True cs) = join '' '' ws)"
      "(\<exists>w ws. (\<forall>c \<in> set w. okChar cfg c) \<and> wordList cfg ws
              \<and> trimEnd (replace_spaces False cs) = join '' '' (w # ws))"
    by simp_all
  obtain ws1 where ws1: "wordList cfg ws1" "trimEnd (replace_spaces True cs) = join '' '' ws1"
    using IH(1) by blast
  obtain w2 ws2 where w2: "\<forall>c \<in> set w2. okChar cfg c" "wordList cfg ws2"
      "trimEnd (replace_spaces False cs) = join '' '' (w2 # ws2)"
    using IH(2) by blast
  show ?case
  proof (cases "isSpace c")
    case True
    have A: "wordList cfg ws1 \<and> trimEnd (replace_spaces True (c # cs)) = join '' '' ws1"
      using True ws1 by simp
    have "trimEnd (replace_spaces False (c # cs)) = join '' '' ([] # ws1)"
      using True ws1 wordList_join_eq_Nil [OF ws1(1), of "'' ''"]
      by (simp add: trimEnd_Cons space_facts join_Cons)
    then have B: "(\<forall>c \<in> set ([] :: string). okChar cfg c) \<and> wordList cfg ws1
        \<and> trimEnd (replace_spaces False (c # cs)) = join '' '' ([] # ws1)"
      using ws1(1) by simp
    from A B show ?thesis by blast
  next
    case False
    then have ok: "okChar cfg c" using Cons.prems by simp
    have step: "trimEnd (replace_spaces b (c # cs)) = join '' '' ((c # w2) # ws2)" for b
      using False w2(3) by (simp add: trimEnd_Cons join_Cons)
    have wl: "wordList cfg ((c # w2) # ws2)"
      using ok w2(1,2) by (simp add: wordList_def)
    have A: "wordList cfg ((c # w2) # ws2)
        \<and> trimEnd (replace_spaces True (c # cs)) = join '' '' ((c # w2) # ws2)"
      using wl step by simp
    have B: "(\<forall>x \<in> set (c # w2). okChar cfg x) \<and> wordList cfg ws2
        \<and> trimEnd (replace_spaces False (c # cs)) = join '' '' ((c # w2) # ws2)"
      using ok w2(1,2) step by simp
    from A B show ?thesis by blast
  qed
qed

lemma set_join: "set (join '' '' ws) \<subseteq> (\<Union>w \<in> set ws. set w) \<union> {CHR '' ''}"
proof (induction ws)
  case Nil
  then show ?case by simp
next
  case (Cons w ws)
  then show ?case unfolding join_Cons [of _ w ws] by auto
qed

lemma wordList_chars:
  assumes "wordList cfg ws" "c \<in> set (join '' '' ws)"
  shows "okChar cfg c \<or> c = CHR '' ''"
  using assms set_join [of ws] unfolding wordList_def by blast

lemma wordList_Cons: "wordList cfg (w # ws) \<longleftrightarrow>
    w \<noteq> [] \<and> (\<forall>c \<in> set w. okChar cfg c) \<and> wordList cfg ws"
  by (auto simp: wordList_def)

lemma wordList_hd_last:
  assumes "wordList cfg ws" "ws \<noteq> []"
  shows "join '' '' ws \<noteq> [] \<and> \<not> isSpace (hd (join '' '' ws))
       \<and> \<not> isSpace (last (join '' '' ws))"
  using assms
proof (induction ws)
  case Nil
  then show ?case by simp
next
  case (Cons w ws)
  have w: "w \<noteq> []" "\<forall>c \<in> set w. okChar cfg c" and wl: "wordList cfg ws"
    using Cons.prems(1) by (simp_all add: wordList_Cons)
  have "hd w \<in> set w" "last w \<in> set w" using w(1) by simp_all
  then have hdw: "\<not> isSpace (hd w)" and lastw: "\<not> isSpace (last w)"
    using w(2) okChar_not_isSpace by blast+
  show ?case
  proof (cases "ws = []")
    case True
    then show ?thesis using w hdw lastw by simp
  next
    case False
    from Cons.IH [OF wl False] show ?thesis
      unfolding join_Cons [of _ w ws] using w hdw False by simp
  qed
qed

lemma trim_fixed: "s = [] \<or> (\<not> isSpace (hd s) \<and> \<not> isSpace (last s)) \<Longrightarrow> trim s = s"
proof (cases s)
  case Nil
  then show ?thesis by (simp add: trim_def)
next
  case (Cons c cs)
  assume "s = [] \<or> (\<not> isSpace (hd s) \<and> \<not> isSpace (last s))"
  then have h: "\<not> isSpace (hd s)" and l: "\<not> isSpace (last s)" using Cons by simp_all
  have 1: "dropWhile isSpace s = s" using h Cons by simp
  have "hd (rev s) = last s" using Cons by (simp add: hd_rev)
  then have "dropWhile isSpace (rev s) = rev s"
    using l Cons by (cases "rev s") auto
  then show ?thesis by (simp add: trim_def 1)
qed

lemma trim_join: "wordList cfg ws \<Longrightarrow> trim (join '' '' ws) = join '' '' ws"
proof (cases "ws = []")
  case True
  then show ?thesis by (simp add: trim_def)
next
  case False
  assume "wordList cfg ws"
  from wordList_hd_last [OF this False] show ?thesis by (intro trim_fixed) simp
qed

lemma replace_spaces_word:
  "\<forall>c \<in> set w. \<not> isSpace c \<Longrightarrow> w \<noteq> [] \<Longrightarrow>
     replace_spaces b (w @ r) = w @ replace_spaces False r"
proof (induction w arbitrary: b)
  case Nil
  then show ?case by simp
next
  case (Cons c w)
  show ?case
  proof (cases "w = []")
    case True
    then show ?thesis using Cons.prems by simp
  next
    case False
    then show ?thesis using Cons.IH [of False] Cons.prems by simp
  qed
qed

lemma replace_spaces_join:
  "wordList cfg ws \<Longrightarrow> ws \<noteq> [] \<Longrightarrow> replace_spaces b (join '' '' ws) = join '' '' ws"
proof (induction ws arbitrary: b)
  case Nil
  then show ?case by simp
next
  case (Cons w ws)
  have w: "\<forall>c \<in> set w. \<not> isSpace c" "w \<noteq> []" and wl: "wordList cfg ws"
    using Cons.prems(1) by (auto simp: wordList_Cons okChar_not_isSpace)
  show ?case
  proof (cases "ws = []")
    case True
    from replace_spaces_word [OF w, of b "[]"] show ?thesis using True by simp
  next
    case False
    have "replace_spaces b (w @ CHR '' '' # join '' '' ws)
            = w @ replace_spaces False (CHR '' '' # join '' '' ws)"
      by (rule replace_spaces_word [OF w])
    also have "\<dots> = w @ CHR '' '' # replace_spaces True (join '' '' ws)"
      by (simp add: space_facts)
    also have "\<dots> = w @ CHR '' '' # join '' '' ws"
      using Cons.IH [OF wl False, of True] by simp
    finally show ?thesis using False by (simp add: join_Cons)
  qed
qed

lemma split_neq_Nil: "split s \<noteq> []"
  by (induction s) (auto split: list.splits)

lemma split_word:
  "CHR '' '' \<notin> set w \<Longrightarrow> split (w @ r) = (w @ hd (split r)) # tl (split r)"
proof (induction w)
  case Nil
  then show ?case using split_neq_Nil [of r] by (cases "split r") simp_all
next
  case (Cons c w)
  then have "c \<noteq> CHR '' ''" and "CHR '' '' \<notin> set w" by auto
  then show ?case using Cons.IH by simp
qed

lemma split_join:
  "\<forall>w \<in> set ws. CHR '' '' \<notin> set w \<Longrightarrow> ws \<noteq> [] \<Longrightarrow> split (join '' '' ws) = ws"
proof (induction ws)
  case Nil
  then show ?case by simp
next
  case (Cons w ws)
  have w: "CHR '' '' \<notin> set w" using Cons.prems(1) by simp
  show ?case
  proof (cases "ws = []")
    case True
    then show ?thesis using split_word [OF w, of "[]"] by simp
  next
    case False
    have "split (w @ CHR '' '' # join '' '' ws)
            = (w @ hd (split (CHR '' '' # join '' '' ws))) # tl (split (CHR '' '' # join '' '' ws))"
      by (rule split_word [OF w])
    then show ?thesis using Cons.IH Cons.prems(1) False by (simp add: join_Cons)
  qed
qed

lemma wordList_nospace: "wordList cfg ws \<Longrightarrow> \<forall>w \<in> set ws. CHR '' '' \<notin> set w"
  using okChar_not_isSpace space_facts(3) unfolding wordList_def by blast

lemma set_trim: "set (trim s) \<subseteq> set s"
proof -
  have "set (trim s) = set (dropWhile isSpace (rev (dropWhile isSpace s)))"
    by (simp add: trim_def)
  also have "\<dots> \<subseteq> set (rev (dropWhile isSpace s))"
    using set_dropWhileD by fastforce
  also have "\<dots> \<subseteq> set s"
    using set_dropWhileD by fastforce
  finally show ?thesis .
qed

lemma empty_not_suffix: "toLowerCase [] \<notin> set BUSINESS_SUFFIXES"
  by (simp add: toLowerCase_def BUSINESS_SUFFIXES_def)

lemma wordList_filter: "wordList cfg ws \<Longrightarrow> wordList cfg (filter P ws)"
  by (auto simp: wordList_def)

lemma okChar_or_space:
  assumes "okChar cfg c \<or> c = CHR '' ''"
  shows "toLowerCase_unit c = c" "removeAccents_unit c = c" "isWord c \<or> isSpace c"
    "removeNumbers cfg \<longrightarrow> \<not> isDigit c"
  using assms
  by (auto simp: okChar_def lowWord_toLowerCase_unit lowWord_removeAccents_unit lowWord_isWord
      space_facts)

lemma removeSuffixes_text_join:
  assumes "wordList cfg ws"
  shows "removeSuffixes_text (join '' '' ws) =
           join '' '' (filter (\<lambda>w. toLowerCase w \<notin> set BUSINESS_SUFFIXES) ws)"
proof (cases "ws = []")
  case True
  then show ?thesis
    using empty_not_suffix by (simp add: removeSuffixes_text_def Let_def trim_def)
next
  case False
  have "split (join '' '' ws) = ws"
    by (rule split_join [OF wordList_nospace [OF assms] False])
  then show ?thesis
    using trim_join [OF wordList_filter [OF assms]]
    by (simp add: removeSuffixes_text_def Let_def)
qed

lemma normalize_chars:
  fixes x cfg
  defines "n1 \<equiv> trim (toLowerCase x)"
  defines "n2 \<equiv> (if handleAccents cfg then removeAccents n1 else n1)"
  defines "n3 \<equiv> (if removeNumbers cfg then replace_digits n2 else n2)"
  shows "\<forall>c \<in> set (replace_special n3). okChar cfg c \<or> isSpace c"
proof
  fix c' assume "c' \<in> set (replace_special n3)"
  then obtain c where c: "c \<in> set n3" "c' = (if isWord c \<or> isSpace c then c else CHR '' '')"
    unfolding replace_special_def by auto
  have n1: "\<forall>c \<in> set n1. notUpper c"
    using set_trim [of "toLowerCase x"] notUpper_toLowerCase_unit
    unfolding n1_def toLowerCase_def by auto
  have n2: "\<forall>c \<in> set n2. \<not> asciiUpper c"
    using n1 notUpper_removeAccents_unit notUpper_not_asciiUpper
    unfolding n2_def removeAccents_def by auto
  have n3: "\<not> asciiUpper c" "removeNumbers cfg \<longrightarrow> \<not> isDigit c"
    using c(1) n2 unfolding n3_def replace_digits_def by (auto split: if_splits)
  show "okChar cfg c' \<or> isSpace c'"
  proof (cases "isWord c")
    case True
    then have "lowWord c" using n3(1) by (rule isWord_lowWord)
    then show ?thesis using c(2) True n3(2) by (simp add: okChar_def)
  next
    case False
    then show ?thesis using c(2) by (simp add: space_facts)
  qed
qed

lemma normalize_form:
  "\<exists>ws. wordList cfg ws
      \<and> (removeSuffixes cfg \<longrightarrow> (\<forall>w \<in> set ws. toLowerCase w \<notin> set BUSINESS_SUFFIXES))
      \<and> normalizeCompanyName x cfg = join '' '' ws"
proof -
  define n3 where "n3 = (if removeNumbers cfg
      then replace_digits (if handleAccents cfg then removeAccents (trim (toLowerCase x))
                           else trim (toLowerCase x))
      else (if handleAccents cfg then removeAccents (trim (toLowerCase x))
            else trim (toLowerCase x)))"
  have "\<forall>c \<in> set (replace_special n3). okChar cfg c \<or> isSpace c"
    unfolding n3_def by (rule normalize_chars)
  then obtain ws4 where ws4: "wordList cfg ws4"
      "trim (replace_spaces False (replace_special n3)) = join '' '' ws4"
    using words_of_replace_spaces [of "replace_special n3" cfg]
    unfolding trim_replace_spaces by blast
  have norm: "normalizeCompanyName x cfg =
      (if removeSuffixes cfg then removeSuffixes_text (join '' '' ws4) else join '' '' ws4)"
    unfolding normalizeCompanyName_def Let_def n3_def [symmetric] ws4(2) ..
  show ?thesis
  proof (cases "removeSuffixes cfg")
    case True
    let ?ws = "filter (\<lambda>w. toLowerCase w \<notin> set BUSINESS_SUFFIXES) ws4"
    have "normalizeCompanyName x cfg = join '' '' ?ws"
      using True norm removeSuffixes_text_join [OF ws4(1)] by simp
    moreover have "wordList cfg ?ws" by (rule wordList_filter [OF ws4(1)])
    moreover have "\<forall>w \<in> set ?ws. toLowerCase w \<notin> set BUSINESS_SUFFIXES" by simp
    ultimately show ?thesis by blast
  next
    case False
    then show ?thesis using norm ws4(1) by auto
  qed
qed

lemma normalize_fixed:
  assumes wl: "wordList cfg ws"
    and suf: "removeSuffixes cfg \<longrightarrow> (\<forall>w \<in> set ws. toLowerCase w \<notin> set BUSINESS_SUFFIXES)"
  shows "normalizeCompanyName (join '' '' ws) cfg = join '' '' ws"
proof -
  let ?y = "join '' '' ws"
  have ch: "okChar cfg c \<or> c = CHR '' ''" if "c \<in> set ?y" for c
    using wordList_chars [OF wl that] .
  have 1: "toLowerCase ?y = ?y"
    unfolding toLowerCase_def by (rule map_idI) (rule okChar_or_space(1) [OF ch])
  have 2: "trim ?y = ?y" by (rule trim_join [OF wl])
  have 3: "removeAccents ?y = ?y"
    unfolding removeAccents_def by (rule map_idI) (rule okChar_or_space(2) [OF ch])
  have 4: "replace_digits ?y = ?y" if "removeNumbers cfg"
    unfolding replace_digits_def
  proof (rule filter_True, rule ballI)
    fix c assume "c \<in> set ?y"
    from okChar_or_space(4) [OF ch [OF this]] that show "\<not> isDigit c" by simp
  qed
  have 5: "replace_special ?y = ?y"
    unfolding replace_special_def
  proof (rule map_idI)
    fix c assume "c \<in> set ?y"
    from okChar_or_space(3) [OF ch [OF this]]
    show "(if isWord c \<or> isSpace c then c else CHR '' '') = c" by simp
  qed
  have 6: "replace_spaces False ?y = ?y"
    by (cases "ws = []") (simp_all add: replace_spaces_join [OF wl])
  have 7: "removeSuffixes_text ?y = ?y" if "removeSuffixes cfg"
    using suf that by (simp add: removeSuffixes_text_join [OF wl])
  show ?thesis
    unfolding normalizeCompanyName_def Let_def
    by (cases "removeNumbers cfg"; cases "removeSuffixes cfg") (simp_all add: 1 2 3 4 5 6 7)
qed

text \<open>
  Claim C7. Normalization is idempotent: for every input string \<open>x\<close> and every
  configuration \<open>cfg\<close>, normalizing \<open>normalizeCompanyName x cfg\<close> again with \<open>cfg\<close>
  returns it unchanged.
\<close>

theorem normalizeCompanyName_idempotent:
  "normalizeCompanyName (normalizeCompanyName x cfg) cfg = normalizeCompanyName x cfg"
proof -
  obtain ws where "wordList cfg ws"
      "removeSuffixes cfg \<longrightarrow> (\<forall>w \<in> set ws. toLowerCase w \<notin> set BUSINESS_SUFFIXES)"
      "normalizeCompanyName x cfg = join '' '' ws"
    using normalize_form by blast
  then show ?thesis by (simp add: normalize_fixed)
qed

subsection \<open>The concrete scenarios of the specification\<close>

text \<open>
  The seven worked examples of the specification and of the repository's tests, evaluated
  on the model: the normalization of an accented name with a suffix and punctuation, one
  match per layer, the conservative preset rejecting a borderline pair, and the clustering
  of three names.
\<close>

lemma scenario_normalize:
  "normalizeCompanyName (''Ubisoft Montr'' @ [CHR 0xE9] @ ''al Studio!'') (CONFIG_PRESETS balanced)
     = ''ubisoft montreal''"
  by code_simp

lemma scenario_exact:
  "map (\<lambda>m. (matchMethod m, confidence m))
     (findAllMatches ''Ubisoft Montreal'' [''Ubisoft Montr'' @ [CHR 0xE9] @ ''al Studio'']
        (CONFIG_PRESETS balanced))
   = [(exact_after_normalization, 1)]"
  by code_simp

lemma scenario_typo:
  "map (\<lambda>m. (matchMethod m, confidence m))
     (findAllMatches ''Bolt Technology'' [''Bolt Technlgy''] (CONFIG_PRESETS balanced))
   = [(high_similarity, 867 / 1000)]"
  by code_simp

lemma scenario_word_order:
  "map (\<lambda>m. (matchMethod m, confidence m))
     (findAllMatches ''Ubisoft Montreal'' [''Montreal Ubisoft''] (CONFIG_PRESETS balanced))
   = [(token_match, 1)]"
  by code_simp

lemma scenario_partial:
  "map (\<lambda>m. (matchMethod m, confidence m))
     (findAllMatches ''Santa Monica Studio'' [''Sony Santa Monica''] (CONFIG_PRESETS aggressive))
   = [(partial_match, 706 / 1000)]"
  by code_simp

lemma scenario_conservative:
  "findAllMatches ''Getir'' [''Getir Brand''] (CONFIG_PRESETS conservative) = []"
  by code_simp

lemma scenario_clustering:
  "map (\<lambda>g. (groupOriginal g, map candidate (duplicates g), totalMatches g))
     (duplicateGroups (findDuplicates \<lparr> config = CONFIG_PRESETS balanced \<rparr>
        [''A Corp'', ''A'', ''B Corp'']))
   = [(''A Corp'', [''A''], 1)]"
  by code_simp

end
